theory Spec2Isabelle
  imports Complex_Main
begin

section \<open>Hand cricket: the gesture classifier and the round/match state machine\<close>

text \<open>
  The program is one Python file, \<^verbatim>\<open>src/main.py\<close>. Two parts of it are embedded here:
  the function \<^verbatim>\<open>get_hand_run\<close> (the gesture classifier) and the body of the
  \<^verbatim>\<open>while True\<close> loop of \<^verbatim>\<open>play_hand_cricket\<close> (the round and match state machine).
  Rendering, audio playback and the celebration overlays are left out: they read the game
  variables and write only variables of their own (\<^verbatim>\<open>frame\<close>, \<^verbatim>\<open>run_sound_playing\<close>,
  \<^verbatim>\<open>celebrating_win\<close>, ...), none of which the game logic reads.
\<close>

subsection \<open>Python values and errors\<close>

text \<open>
  An exception raised inside the loop is caught by \<^verbatim>\<open>except Exception\<close> after the loop,
  so it ends the loop. The two exceptions the embedded code can raise are an index out of
  range on the landmark list and an addition of \<^verbatim>\<open>None\<close> to a score.
\<close>

datatype py_error = IndexError | TypeError

text \<open>\<^verbatim>\<open>str\<close> of a non-negative integer, of an integer, and of a move that may be \<^verbatim>\<open>None\<close>,
  as the f-strings of the source format them.\<close>

fun str_nat :: "nat \<Rightarrow> string" where
  "str_nat n =
     (if n < 10 then [''0123456789'' ! n]
      else str_nat (n div 10) @ [''0123456789'' ! (n mod 10)])"

declare str_nat.simps [simp del]

definition str_int :: "int \<Rightarrow> string" where
  "str_int i = (if i < 0 then CHR ''-'' # str_nat (nat (- i)) else str_nat (nat i))"

definition str_move :: "int option \<Rightarrow> string" where
  "str_move m = (case m of None \<Rightarrow> ''None'' | Some i \<Rightarrow> str_int i)"

subsection \<open>The gesture classifier: \<^verbatim>\<open>get_hand_run\<close>\<close>

text \<open>
  A landmark is an object with three coordinates; the classifier reads only \<^verbatim>\<open>.y\<close>.
  The coordinates are Python floats; the classifier only compares them with \<^verbatim>\<open><\<close>, which
  on finite floats is the order of the reals.
\<close>

record landmark =
  lm_x :: real
  lm_y :: real
  lm_z :: real

definition tip_ids :: "nat list" where
  "tip_ids = [4, 8, 12, 16, 20]"

definition pip_ids :: "nat list" where
  "pip_ids = [3, 6, 10, 14, 18]"

text \<open>\<^verbatim>\<open>lm[i].y\<close>: an index beyond the list raises \<^verbatim>\<open>IndexError\<close>.\<close>

definition y_at :: "landmark list \<Rightarrow> nat \<Rightarrow> py_error + real" where
  "y_at lm i = (if i < length lm then Inr (lm_y (lm ! i)) else Inl IndexError)"

text \<open>\<^verbatim>\<open>lm[i].y < lm[j].y\<close>: the left operand is read first.\<close>

definition y_less :: "landmark list \<Rightarrow> nat \<Rightarrow> nat \<Rightarrow> py_error + bool" where
  "y_less lm i j =
     (case y_at lm i of
        Inl e \<Rightarrow> Inl e
      | Inr a \<Rightarrow> (case y_at lm j of Inl e \<Rightarrow> Inl e | Inr b \<Rightarrow> Inr (a < b)))"

text \<open>Python's \<^verbatim>\<open>p and q\<close>: \<^verbatim>\<open>q\<close> is evaluated, and can raise, only when \<^verbatim>\<open>p\<close> is true.\<close>

definition and_then :: "py_error + bool \<Rightarrow> py_error + bool \<Rightarrow> py_error + bool" where
  "and_then p q = (case p of Inl e \<Rightarrow> Inl e | Inr b \<Rightarrow> (if b then q else Inr False))"

text \<open>The condition of the thumb's \<^verbatim>\<open>if\<close> (lines 143 to 146).\<close>

definition thumb_test :: "landmark list \<Rightarrow> py_error + bool" where
  "thumb_test lm =
     and_then (y_less lm (tip_ids ! 0) (pip_ids ! 0))
    (and_then (y_less lm (tip_ids ! 0) (tip_ids ! 1))
    (and_then (y_less lm (tip_ids ! 0) (tip_ids ! 2))
              (y_less lm (tip_ids ! 0) (tip_ids ! 3))))"

text \<open>The loop \<^verbatim>\<open>for i in range(1, 5)\<close>, appending to \<^verbatim>\<open>fingers\<close>.\<close>

fun other_fingers :: "landmark list \<Rightarrow> int list \<Rightarrow> nat list \<Rightarrow> py_error + int list" where
  "other_fingers lm fingers [] = Inr fingers"
| "other_fingers lm fingers (i # rest) =
     (case y_less lm (tip_ids ! i) (pip_ids ! i) of
        Inl e \<Rightarrow> Inl e
      | Inr b \<Rightarrow> other_fingers lm (fingers @ [if b then 1 else 0]) rest)"

definition get_hand_run :: "landmark list \<Rightarrow> string \<Rightarrow> py_error + int" where
  "get_hand_run hand_landmarks handedness =
     (let lm = hand_landmarks;
          is_right_hand = (handedness = ''Right'')
      in case thumb_test lm of
           Inl e \<Rightarrow> Inl e
         | Inr t \<Rightarrow>
             (case other_fingers lm [if t then 6 else 0] [1 ..< 5] of
                Inl e \<Rightarrow> Inl e
              | Inr fingers \<Rightarrow>
                  (let finger_count = sum_list fingers
                   in Inr (max 1 (min 6 finger_count)))))"

subsection \<open>The classifier as the specification words it\<close>

text \<open>
  The specification's sum \<open>S\<close>: 6 when the thumb tip (landmark 4) is above its lower joint
  (3) and above the tips of the index, middle and ring fingers (8, 12, 16), plus 1 for each
  of the four fingers whose tip (8, 12, 16, 20) is above its lower joint (6, 10, 14, 18).
  "Above" is a smaller vertical coordinate.
\<close>

definition spec_thumb :: "landmark list \<Rightarrow> bool" where
  "spec_thumb lm =
     (lm_y (lm ! 4) < lm_y (lm ! 3) \<and> lm_y (lm ! 4) < lm_y (lm ! 8) \<and>
      lm_y (lm ! 4) < lm_y (lm ! 12) \<and> lm_y (lm ! 4) < lm_y (lm ! 16))"

definition spec_finger :: "landmark list \<Rightarrow> nat \<Rightarrow> nat \<Rightarrow> int" where
  "spec_finger lm tip joint = (if lm_y (lm ! tip) < lm_y (lm ! joint) then 1 else 0)"

definition spec_sum :: "landmark list \<Rightarrow> int" where
  "spec_sum lm =
     (if spec_thumb lm then 6 else 0) + spec_finger lm 8 6 + spec_finger lm 12 10 +
     spec_finger lm 16 14 + spec_finger lm 20 18"

subsection \<open>The game variables\<close>

text \<open>
  The local variables of \<^verbatim>\<open>play_hand_cricket\<close> that the game logic reads or writes
  (lines 295 to 316), under their own names. Python's integers are unbounded;
  \<^verbatim>\<open>player_move\<close>, \<^verbatim>\<open>computer_move\<close> and \<^verbatim>\<open>target\<close> can be \<^verbatim>\<open>None\<close>.
\<close>

record game =
  clock :: int
  player_move :: "int option"
  computer_move :: "int option"
  gametext :: string
  success :: bool
  gameresult :: string
  player_score :: int
  computer_score :: int
  scored_this_round :: bool
  is_player_batting :: bool
  is_out :: bool
  innings :: int
  round_num :: int
  game_started :: bool
  target :: "int option"
  game_over :: bool

text \<open>The texts with an apostrophe, which the string syntax cannot hold directly.\<close>

definition press_s_text :: string where
  "press_s_text = ''Press '' @ [CHR 0x27] @ ''S'' @ [CHR 0x27] @ '' to Start the Game!''"

definition press_n_text :: string where
  "press_n_text = '' Press '' @ [CHR 0x27] @ ''N'' @ [CHR 0x27] @ '' to restart''"

definition you_won_text :: string where
  "you_won_text = ''You Won the Game!'' @ press_n_text"

definition you_lost_text :: string where
  "you_lost_text = ''You Lost the Game!'' @ press_n_text"

definition tie_text :: string where
  "tie_text = [CHR ''I'', CHR ''t'', CHR 0x27] @ ''s a Tie!'' @ press_n_text"

definition hand_not_detected_text :: string where
  "hand_not_detected_text = ''Hand not detected! Please show your hand clearly.''"

text \<open>The values of the variables before the loop (lines 295 to 316).\<close>

definition initial_game :: game where
  "initial_game =
     \<lparr>clock = 0, player_move = None, computer_move = None, gametext = press_s_text,
      success = True, gameresult = [], player_score = 0, computer_score = 0,
      scored_this_round = False, is_player_batting = True, is_out = False, innings = 1,
      round_num = 0, game_started = False, target = None, game_over = False\<rparr>"

subsection \<open>What one pass of the loop receives\<close>

text \<open>
  One pass of the loop reads a camera frame (\<^verbatim>\<open>ret\<close> is false when the read fails),
  the detector's result on it (a list of hands, each a landmark list with the category name
  of its handedness; the source uses the first), one draw of \<^verbatim>\<open>random.choice\<close> and the
  value of \<^verbatim>\<open>cv.waitKey(1)\<close>.
\<close>

record tick_input =
  ret :: bool
  hands :: "(landmark list \<times> string) list"
  rnd :: nat
  waitkey :: int

text \<open>\<^verbatim>\<open>random.choice(xs)\<close> on a non-empty list, with its randomness \<open>r\<close> made a parameter:
  every element can be drawn and nothing else can.\<close>

definition random_choice :: "'a list \<Rightarrow> nat \<Rightarrow> 'a" where
  "random_choice xs r = xs ! (r mod length xs)"

text \<open>Why the loop ended.\<close>

datatype stop = ReadFailed | QuitKey | Raised py_error

subsection \<open>The body of the loop\<close>

text \<open>Lines 391 to 394: the start of a round.\<close>

definition round_start :: "game \<Rightarrow> game" where
  "round_start g =
     (if clock g = 0 \<and> game_started g
      then g\<lparr>round_num := round_num g + 1, scored_this_round := False, gameresult := []\<rparr>
      else g)"

text \<open>Lines 416 to 425, the branch \<^verbatim>\<open>clock == 15\<close>: the capture.\<close>

definition capture :: "tick_input \<Rightarrow> game \<Rightarrow> py_error + game" where
  "capture inp g =
     (case hands inp of
        (hand_landmarks, handedness) # _ \<Rightarrow>
          (case get_hand_run hand_landmarks handedness of
             Inl e \<Rightarrow> Inl e
           | Inr m \<Rightarrow>
               Inr (g\<lparr>player_move := Some m,
                      computer_move := Some (random_choice [1, 2, 3, 4, 6] (rnd inp))\<rparr>))
      | [] \<Rightarrow> Inr (g\<lparr>success := False\<rparr>))"

text \<open>
  Lines 431 to 459, the body of \<^verbatim>\<open>if not scored_this_round\<close>: the outcome of the round.
  \<^verbatim>\<open>player_score += run\<close> raises \<^verbatim>\<open>TypeError\<close> when \<^verbatim>\<open>run\<close> is \<^verbatim>\<open>None\<close>.
\<close>

definition apply_outcome :: "game \<Rightarrow> py_error + game" where
  "apply_outcome g =
     (if player_move g = computer_move g then
        Inr (g\<lparr>gametext := ''OUT! Both showed '' @ str_move (player_move g) @ ''!'',
               is_out := True,
               game_over := (innings g = 2),
               scored_this_round := True\<rparr>)
      else
        (case (if is_player_batting g then player_move g else computer_move g) of
           None \<Rightarrow> Inl TypeError
         | Some run \<Rightarrow>
             if is_player_batting g then
               Inr (g\<lparr>player_score := player_score g + run,
                      gametext := ''You scored '' @ str_int run @ '' run(s)!'',
                      scored_this_round := True\<rparr>)
             else
               (let g1 = g\<lparr>computer_score := computer_score g + run,
                            gametext := ''Computer scored '' @ str_int run @ '' run(s)!''\<rparr>;
                    g2 = (if innings g1 = 2 \<and> computer_score g1 > player_score g1
                          then g1\<lparr>gametext := ''Computer Won! They chased the target of '' @
                                                str_int (player_score g1 + 1) @ ''!'',
                                    is_out := True,
                                    game_over := True\<rparr>
                          else g1)
                in Inr (g2\<lparr>scored_this_round := True\<rparr>))))"

text \<open>Lines 427 to 461, the branch \<^verbatim>\<open>15 < clock < 25\<close>.\<close>

definition resolve :: "game \<Rightarrow> py_error + game" where
  "resolve g =
     (if success g then
        (let g1 = g\<lparr>gameresult := ''You: '' @ str_move (player_move g) @ ''  |  Computer: '' @
                                    str_move (computer_move g)\<rparr>
         in if \<not> scored_this_round g1 then apply_outcome g1 else Inr g1)
      else Inr (g\<lparr>gametext := hand_not_detected_text\<rparr>))"

text \<open>Lines 463 to 490, the branch \<^verbatim>\<open>clock == 25\<close>: the end of an innings or of the match.\<close>

definition checkpoint :: "game \<Rightarrow> game" where
  "checkpoint g =
     (if is_out g then
        (if innings g = 1 then
           g\<lparr>target := Some (player_score g),
             is_player_batting := False,
             is_out := False,
             gametext := ''Innings Over! Computer needs '' @ str_int (player_score g + 1) @
                         '' to win.'',
             innings := innings g + 1,
             game_over := False\<rparr>
         else
           (let g1 = g\<lparr>game_over := True\<rparr>
            in if player_score g1 > computer_score g1 then g1\<lparr>gametext := you_won_text\<rparr>
               else if computer_score g1 > player_score g1 then g1\<lparr>gametext := you_lost_text\<rparr>
               else g1\<lparr>gametext := tie_text\<rparr>))
      else g)"

text \<open>Lines 492 to 499, the branch \<^verbatim>\<open>clock > 25\<close>: the next round, unless the match is over.\<close>

definition auto_advance :: "game \<Rightarrow> game" where
  "auto_advance g =
     (if \<not> game_over g
      then g\<lparr>clock := - 1, gametext := [], gameresult := [], player_move := None,
             computer_move := None, success := True\<rparr>
      else g)"

text \<open>Lines 407 to 499: the chain of branches on \<^verbatim>\<open>clock\<close>.\<close>

definition game_state_logic :: "tick_input \<Rightarrow> game \<Rightarrow> py_error + game" where
  "game_state_logic inp g =
     (if \<not> game_started g then Inr (g\<lparr>gametext := press_s_text\<rparr>)
      else if 0 \<le> clock g \<and> clock g < 5 then
        Inr (g\<lparr>success := True, gametext := ''Get Ready...''\<rparr>)
      else if 5 \<le> clock g \<and> clock g < 15 then
        Inr (g\<lparr>gametext := (if is_player_batting g then ''You'' else ''Computer'') @
                             '' batting - Show your hand!''\<rparr>)
      else if clock g = 15 then capture inp g
      else if 15 < clock g \<and> clock g < 25 then resolve g
      else if clock g = 25 then Inr (checkpoint g)
      else if clock g > 25 then Inr (auto_advance g)
      else Inr g)"

text \<open>Lines 524 to 539: what the key \<^verbatim>\<open>n\<close> assigns.\<close>

definition restart :: "game \<Rightarrow> game" where
  "restart g =
     g\<lparr>player_score := 0, computer_score := 0, is_player_batting := True, innings := 1,
       round_num := 0, clock := 0, gametext := [], gameresult := [], player_move := None,
       computer_move := None, is_out := False, success := True, scored_this_round := False,
       game_started := False, target := None, game_over := False\<rparr>"

text \<open>
  Lines 512 to 539: the keys. \<^verbatim>\<open>cv.waitKey(1) & 0xFF\<close> is the value modulo 256; the codes
  of \<^verbatim>\<open>q\<close>, \<^verbatim>\<open>s\<close> and \<^verbatim>\<open>n\<close> are 113, 115 and 110. The key \<^verbatim>\<open>q\<close> leaves the loop.
\<close>

definition handle_key :: "tick_input \<Rightarrow> game \<Rightarrow> stop + game" where
  "handle_key inp g =
     (let key = waitkey inp mod 256
      in if key = 113 then Inl QuitKey
         else if key = 115 \<and> \<not> game_started g then
           Inr (g\<lparr>game_started := True, clock := 0, gametext := []\<rparr>)
         else if key = 110 \<and> game_over g then Inr (restart g)
         else Inr g)"

text \<open>Lines 556 to 559: the clock.\<close>

definition clock_increment :: "game \<Rightarrow> game" where
  "clock_increment g =
     (if game_started g \<and> \<not> game_over g then g\<lparr>clock := clock g + 1\<rparr>
      else if game_started g \<and> game_over g \<and> clock g \<le> 50 then g\<lparr>clock := clock g + 1\<rparr>
      else g)"

text \<open>One pass of the loop (lines 342 to 559): \<open>Inl\<close> when the loop ends in this pass.\<close>

definition loop_body :: "tick_input \<Rightarrow> game \<Rightarrow> stop + game" where
  "loop_body inp g =
     (if \<not> ret inp then Inl ReadFailed
      else
        (case game_state_logic inp (round_start g) of
           Inl e \<Rightarrow> Inl (Raised e)
         | Inr g1 \<Rightarrow>
             (case handle_key inp g1 of
                Inl st \<Rightarrow> Inl st
              | Inr g2 \<Rightarrow> Inr (clock_increment g2))))"

text \<open>The loop over the inputs of successive passes; it stops at the first pass that ends it.\<close>

fun run_loop :: "tick_input list \<Rightarrow> game \<Rightarrow> stop + game" where
  "run_loop [] g = Inr g"
| "run_loop (inp # rest) g =
     (case loop_body inp g of Inl st \<Rightarrow> Inl st | Inr g1 \<Rightarrow> run_loop rest g1)"

text \<open>The states the loop can be in at the start of a pass.\<close>

inductive reachable :: "game \<Rightarrow> bool" where
  reachable_initial: "reachable initial_game"
| reachable_pass: "reachable g \<Longrightarrow> loop_body inp g = Inr g1 \<Longrightarrow> reachable g1"

subsection \<open>Results, and the invariants of the loop\<close>

text \<open>The result of a match is announced in \<^verbatim>\<open>gametext\<close> (lines 479 to 488).\<close>

definition won :: "game \<Rightarrow> bool" where
  "won g = (gametext g = you_won_text)"

definition lost :: "game \<Rightarrow> bool" where
  "lost g = (gametext g = you_lost_text)"

definition tied :: "game \<Rightarrow> bool" where
  "tied g = (gametext g = tie_text)"

text \<open>The key \<^verbatim>\<open>n\<close> is taken in a pass whose game logic leaves the state \<open>g\<close>.\<close>

definition restart_taken :: "tick_input \<Rightarrow> game \<Rightarrow> bool" where
  "restart_taken inp g = (waitkey inp mod 256 = 110 \<and> game_over g)"

text \<open>What holds of innings, target and batting side in every state the loop reaches.\<close>

definition match_inv :: "game \<Rightarrow> bool" where
  "match_inv g =
     ((innings g = 1 \<or> innings g = 2) \<and> (target g = None) = (innings g = 1) \<and>
      is_player_batting g = (innings g = 1) \<and> (game_over g \<longrightarrow> innings g = 2))"

text \<open>Moves as the capture records them: the classifier's range and the generator's list.\<close>

definition valid_moves :: "game \<Rightarrow> bool" where
  "valid_moves g =
     (\<exists>p c. player_move g = Some p \<and> 1 \<le> p \<and> p \<le> 6 \<and>
            computer_move g = Some c \<and> c \<in> set [1, 2, 3, 4, 6])"

text \<open>What holds of the clock, the dismissal flag and the moves in every state the loop
  reaches.\<close>

definition round_inv :: "game \<Rightarrow> bool" where
  "round_inv g =
     ((\<not> game_started g \<longrightarrow> clock g = 0) \<and>
      (is_out g \<longrightarrow> 16 < clock g \<and> (25 < clock g \<longrightarrow> game_over g)) \<and>
      (game_over g \<longrightarrow> is_out g \<and> game_started g) \<and>
      (clock g \<le> 15 \<longrightarrow> player_move g = None \<and> computer_move g = None) \<and>
      (15 < clock g \<and> success g \<longrightarrow> valid_moves g))"

subsection \<open>Rounds, and the passes that apply an outcome\<close>

text \<open>The pass from \<open>g\<close> enters the body of \<^verbatim>\<open>if not scored_this_round\<close> (line 430).\<close>

definition applies_outcome :: "tick_input \<Rightarrow> game \<Rightarrow> bool" where
  "applies_outcome inp g =
     (ret inp \<and> game_started g \<and> 15 < clock g \<and> clock g < 25 \<and> success g \<and>
      \<not> scored_this_round g)"

text \<open>The game logic of the pass from \<open>g\<close> takes \<^verbatim>\<open>scored_this_round\<close> from false to true.\<close>

definition sets_scored :: "tick_input \<Rightarrow> game \<Rightarrow> bool" where
  "sets_scored inp g =
     (ret inp \<and>
      (case game_state_logic inp (round_start g) of
         Inl e \<Rightarrow> False
       | Inr g2 \<Rightarrow> \<not> scored_this_round (round_start g) \<and> scored_this_round g2))"

text \<open>The game logic of the pass from \<open>g\<close> scores runs or dismisses: it changes a score, or
  it takes \<^verbatim>\<open>is_out\<close> from false to true. This compares the state after the game logic
  with the state before it, whatever path the logic took.\<close>

definition outcome_effect :: "tick_input \<Rightarrow> game \<Rightarrow> bool" where
  "outcome_effect inp g =
     (ret inp \<and>
      (case game_state_logic inp (round_start g) of
         Inl e \<Rightarrow> False
       | Inr g2 \<Rightarrow>
           player_score g2 \<noteq> player_score g \<or> computer_score g2 \<noteq> computer_score g \<or>
           (is_out g2 \<and> \<not> is_out g)))"

text \<open>The pass from \<open>g\<close> starts a round (lines 391 to 394 run); the pass restarts the match
  (lines 521 to 539 run). These are the two places that assign false to
  \<^verbatim>\<open>scored_this_round\<close>.\<close>

definition round_start_pass :: "tick_input \<Rightarrow> game \<Rightarrow> bool" where
  "round_start_pass inp g = (ret inp \<and> clock g = 0 \<and> game_started g)"

definition restart_pass :: "tick_input \<Rightarrow> game \<Rightarrow> bool" where
  "restart_pass inp g =
     (ret inp \<and>
      (case game_state_logic inp (round_start g) of
         Inl e \<Rightarrow> False
       | Inr g2 \<Rightarrow> restart_taken inp g2))"

text \<open>How many passes of a run satisfy \<open>P\<close>.\<close>

fun count_passes :: "(tick_input \<Rightarrow> game \<Rightarrow> bool) \<Rightarrow> tick_input list \<Rightarrow> game \<Rightarrow> nat" where
  "count_passes P [] g = 0"
| "count_passes P (inp # rest) g =
     (if P inp g then 1 else 0) +
     (case loop_body inp g of Inl st \<Rightarrow> 0 | Inr g1 \<Rightarrow> count_passes P rest g1)"

text \<open>No pass of the run starts a round or restarts the match.\<close>

fun no_reset :: "tick_input list \<Rightarrow> game \<Rightarrow> bool" where
  "no_reset [] g = True"
| "no_reset (inp # rest) g =
     (\<not> round_start_pass inp g \<and> \<not> restart_pass inp g \<and>
      (case loop_body inp g of Inl st \<Rightarrow> True | Inr g1 \<Rightarrow> no_reset rest g1))"

text \<open>The passes of one round: the first may start the round, no later one starts a round,
  and none restarts the match.\<close>

fun one_round :: "tick_input list \<Rightarrow> game \<Rightarrow> bool" where
  "one_round [] g = True"
| "one_round (inp # rest) g =
     (\<not> restart_pass inp g \<and>
      (case loop_body inp g of Inl st \<Rightarrow> True | Inr g1 \<Rightarrow> no_reset rest g1))"

subsection \<open>Inputs and states for the examples\<close>

definition hand_of_ys :: "real list \<Rightarrow> landmark list" where
  "hand_of_ys ys = map (\<lambda>v. \<lparr>lm_x = 0, lm_y = v, lm_z = 0\<rparr>) ys"

text \<open>A closed fist: no tip above its joint.\<close>

definition fist :: "landmark list" where
  "fist = hand_of_ys
     [0.9, 0.8, 0.7, 0.6, 0.6, 0.5, 0.5, 0.6, 0.7, 0.5, 0.5, 0.6, 0.7, 0.5, 0.5, 0.6, 0.7,
      0.5, 0.5, 0.6, 0.7]"

text \<open>Index and middle finger up; then the ring finger too; then the little finger too. The
  thumb is never above them.\<close>

definition two_fingers :: "landmark list" where
  "two_fingers = hand_of_ys
     [0.9, 0.8, 0.7, 0.6, 0.6, 0.5, 0.5, 0.4, 0.2, 0.5, 0.5, 0.4, 0.2, 0.5, 0.5, 0.6, 0.7,
      0.5, 0.5, 0.6, 0.7]"

definition three_fingers :: "landmark list" where
  "three_fingers = hand_of_ys
     [0.9, 0.8, 0.7, 0.6, 0.6, 0.5, 0.5, 0.4, 0.2, 0.5, 0.5, 0.4, 0.2, 0.5, 0.5, 0.4, 0.2,
      0.5, 0.5, 0.6, 0.7]"

definition four_fingers :: "landmark list" where
  "four_fingers = hand_of_ys
     [0.9, 0.8, 0.7, 0.6, 0.6, 0.5, 0.5, 0.4, 0.2, 0.5, 0.5, 0.4, 0.2, 0.5, 0.5, 0.4, 0.2,
      0.5, 0.5, 0.4, 0.3]"

text \<open>Thumb on top and the index finger up as well: the sum is 7.\<close>

definition thumb_and_index :: "landmark list" where
  "thumb_and_index = hand_of_ys
     [0.9, 0.8, 0.7, 0.6, 0.1, 0.5, 0.5, 0.4, 0.2, 0.5, 0.5, 0.6, 0.7, 0.5, 0.5, 0.6, 0.7,
      0.5, 0.5, 0.6, 0.7]"

text \<open>A pass with no hand in the frame and no key (\<^verbatim>\<open>cv.waitKey\<close> returns \<open>-1\<close>); a pass
  with a key; a pass with a hand in the frame and the draw \<open>r\<close>.\<close>

definition no_hand :: tick_input where
  "no_hand = \<lparr>ret = True, hands = [], rnd = 0, waitkey = - 1\<rparr>"

definition key_pass :: "int \<Rightarrow> tick_input" where
  "key_pass k = \<lparr>ret = True, hands = [], rnd = 0, waitkey = k\<rparr>"

definition hand_pass :: "landmark list \<Rightarrow> nat \<Rightarrow> tick_input" where
  "hand_pass lm r = \<lparr>ret = True, hands = [(lm, ''Right'')], rnd = r, waitkey = - 1\<rparr>"

text \<open>The 27 passes of a round after the first (clock 0 to 26), with the hand and the draw
  of its capture.\<close>

definition round_passes :: "landmark list \<Rightarrow> nat \<Rightarrow> tick_input list" where
  "round_passes lm r = replicate 15 no_hand @ [hand_pass lm r] @ replicate 11 no_hand"

text \<open>The match is started, the player shows a fist (1), the computer draws 1: out. The
  passes up to, and without, the pass at clock 25; the state then, and after that pass.\<close>

definition first_round_out :: "tick_input list" where
  "first_round_out =
     key_pass 115 # replicate 14 no_hand @ [hand_pass fist 0] @ replicate 9 no_hand"

definition at_checkpoint :: game where
  "at_checkpoint =
     \<lparr>clock = 25, player_move = Some 1, computer_move = Some 1,
      gametext = ''OUT! Both showed 1!'', success = True,
      gameresult = ''You: 1  |  Computer: 1'', player_score = 0, computer_score = 0,
      scored_this_round = True, is_player_batting = True, is_out = True, innings = 1,
      round_num = 0, game_started = True, target = None, game_over = False\<rparr>"

definition second_innings :: game where
  "second_innings =
     \<lparr>clock = 26, player_move = Some 1, computer_move = Some 1,
      gametext = ''Innings Over! Computer needs 1 to win.'', success = True,
      gameresult = ''You: 1  |  Computer: 1'', player_score = 0, computer_score = 0,
      scored_this_round = True, is_player_batting = False, is_out = False, innings = 2,
      round_num = 0, game_started = True, target = Some 0, game_over = False\<rparr>"

text \<open>A started match just before the capture of its first round.\<close>

definition at_capture :: game where
  "at_capture =
     \<lparr>clock = 15, player_move = None, computer_move = None,
      gametext = ''You batting - Show your hand!'', success = True, gameresult = [],
      player_score = 0, computer_score = 0, scored_this_round = False,
      is_player_batting = True, is_out = False, innings = 1, round_num = 0,
      game_started = True, target = None, game_over = False\<rparr>"

text \<open>A first round in which the player shows 6 against 1, and the start of the second
  round.\<close>

definition first_round_six :: "tick_input list" where
  "first_round_six =
     key_pass 115 # replicate 14 no_hand @ [hand_pass thumb_and_index 0] @
     replicate 11 no_hand"

definition second_round :: game where
  "second_round =
     \<lparr>clock = 0, player_move = None, computer_move = None, gametext = [], success = True,
      gameresult = [], player_score = 6, computer_score = 0, scored_this_round = True,
      is_player_batting = True, is_out = False, innings = 1, round_num = 0,
      game_started = True, target = None, game_over = False\<rparr>"

text \<open>The start of the third round, after the player showed 2 against 1 in the second.\<close>

definition third_round :: game where
  "third_round =
     \<lparr>clock = 0, player_move = None, computer_move = None, gametext = [], success = True,
      gameresult = [], player_score = 8, computer_score = 0, scored_this_round = True,
      is_player_batting = True, is_out = False, innings = 1, round_num = 1,
      game_started = True, target = None, game_over = False\<rparr>"

text \<open>In the second round the player shows 2 against 1: the state after the capture.\<close>

definition to_player_bats :: "tick_input list" where
  "to_player_bats = first_round_six @ replicate 15 no_hand @ [hand_pass two_fingers 0]"

definition player_bats :: game where
  "player_bats =
     \<lparr>clock = 16, player_move = Some 2, computer_move = Some 1,
      gametext = ''You batting - Show your hand!'', success = True, gameresult = [],
      player_score = 6, computer_score = 0, scored_this_round = False,
      is_player_batting = True, is_out = False, innings = 1, round_num = 1,
      game_started = True, target = None, game_over = False\<rparr>"

text \<open>Scenario A of the specification: both sides show 4 in the first innings (after 6 and
  1 for the player).\<close>

definition to_scenario_a :: "tick_input list" where
  "to_scenario_a =
     first_round_six @ round_passes fist 1 @ replicate 15 no_hand @
     [hand_pass four_fingers 3]"

definition scenario_a :: game where
  "scenario_a =
     \<lparr>clock = 16, player_move = Some 4, computer_move = Some 4,
      gametext = ''You batting - Show your hand!'', success = True, gameresult = [],
      player_score = 7, computer_score = 0, scored_this_round = False,
      is_player_batting = True, is_out = False, innings = 1, round_num = 2,
      game_started = True, target = None, game_over = False\<rparr>"

text \<open>Scenario B of the specification: second innings, the computer bats with 3 runs against
  8 and draws 6; the player shows 2. The match that leads there: the player scores 6 and 2
  and is out, the computer scores 3.\<close>

definition to_second_innings :: "tick_input list" where
  "to_second_innings =
     first_round_six @ round_passes two_fingers 0 @ round_passes fist 0 @
     round_passes fist 2"

definition to_scenario_b :: "tick_input list" where
  "to_scenario_b = to_second_innings @ replicate 15 no_hand @ [hand_pass two_fingers 4]"

definition scenario_b :: game where
  "scenario_b =
     \<lparr>clock = 16, player_move = Some 2, computer_move = Some 6,
      gametext = ''Computer batting - Show your hand!'', success = True, gameresult = [],
      player_score = 8, computer_score = 3, scored_this_round = False,
      is_player_batting = False, is_out = False, innings = 2, round_num = 4,
      game_started = True, target = Some 8, game_over = False\<rparr>"

text \<open>Scenario B nine passes later, before the pass at clock 25, and after that pass.\<close>

definition chase_at_checkpoint :: game where
  "chase_at_checkpoint =
     \<lparr>clock = 25, player_move = Some 2, computer_move = Some 6,
      gametext = ''Computer Won! They chased the target of 9!'', success = True,
      gameresult = ''You: 2  |  Computer: 6'', player_score = 8, computer_score = 9,
      scored_this_round = True, is_player_batting = False, is_out = True, innings = 2,
      round_num = 4, game_started = True, target = Some 8, game_over = True\<rparr>"

definition chase_after_checkpoint :: game where
  "chase_after_checkpoint = chase_at_checkpoint\<lparr>clock := 26, gametext := you_lost_text\<rparr>"

text \<open>What the restart key leaves: the initial values, with an empty text.\<close>

definition restarted_game :: game where
  "restarted_game =
     \<lparr>clock = 0, player_move = None, computer_move = None, gametext = [], success = True,
      gameresult = [], player_score = 0, computer_score = 0, scored_this_round = False,
      is_player_batting = True, is_out = False, innings = 1, round_num = 0,
      game_started = False, target = None, game_over = False\<rparr>"

text \<open>The same match when the computer instead scores 2 and is then out on 3 against 3, at
  8 against 5: the state before the pass at clock 25.\<close>

definition to_match_end :: "tick_input list" where
  "to_match_end =
     to_second_innings @ round_passes fist 1 @ replicate 15 no_hand @
     [hand_pass three_fingers 2] @ replicate 9 no_hand"

definition match_end :: game where
  "match_end =
     \<lparr>clock = 25, player_move = Some 3, computer_move = Some 3,
      gametext = ''OUT! Both showed 3!'', success = True,
      gameresult = ''You: 3  |  Computer: 3'', player_score = 8, computer_score = 5,
      scored_this_round = True, is_player_batting = False, is_out = True, innings = 2,
      round_num = 5, game_started = True, target = Some 8, game_over = True\<rparr>"

section \<open>Properties of the classifier\<close>

lemma y_less_in_range:
  "i < length lm \<Longrightarrow> j < length lm \<Longrightarrow> y_less lm i j = Inr (lm_y (lm ! i) < lm_y (lm ! j))"
  by (simp add: y_less_def y_at_def)

lemma thumb_test_21:
  assumes "20 < length lm"
  shows "thumb_test lm = Inr (spec_thumb lm)"
proof -
  have "y_less lm 4 3 = Inr (lm_y (lm ! 4) < lm_y (lm ! 3))"
       "y_less lm 4 8 = Inr (lm_y (lm ! 4) < lm_y (lm ! 8))"
       "y_less lm 4 12 = Inr (lm_y (lm ! 4) < lm_y (lm ! 12))"
       "y_less lm 4 16 = Inr (lm_y (lm ! 4) < lm_y (lm ! 16))"
    using assms by (simp_all add: y_less_in_range)
  then show ?thesis
    by (simp add: thumb_test_def tip_ids_def pip_ids_def and_then_def spec_thumb_def)
qed

lemma other_fingers_21:
  assumes "20 < length lm"
  shows "other_fingers lm [t] [1 ..< 5] =
         Inr [t, spec_finger lm 8 6, spec_finger lm 12 10, spec_finger lm 16 14,
              spec_finger lm 20 18]"
proof -
  have idx: "[1 ..< 5] = [1, 2, 3, 4::nat]"
    by (simp add: upt_rec)
  have "y_less lm 8 6 = Inr (lm_y (lm ! 8) < lm_y (lm ! 6))"
       "y_less lm 12 10 = Inr (lm_y (lm ! 12) < lm_y (lm ! 10))"
       "y_less lm 16 14 = Inr (lm_y (lm ! 16) < lm_y (lm ! 14))"
       "y_less lm 20 18 = Inr (lm_y (lm ! 20) < lm_y (lm ! 18))"
    using assms by (simp_all add: y_less_in_range)
  then show ?thesis
    unfolding idx by (simp add: tip_ids_def pip_ids_def spec_finger_def)
qed

lemma get_hand_run_21:
  assumes "20 < length lm"
  shows "get_hand_run lm h = Inr (max 1 (min 6 (spec_sum lm)))"
proof -
  let ?t = "if spec_thumb lm then 6 else (0::int)"
  have "other_fingers lm [?t] [1 ..< 5] =
        Inr [?t, spec_finger lm 8 6, spec_finger lm 12 10, spec_finger lm 16 14,
             spec_finger lm 20 18]"
    using assms by (rule other_fingers_21)
  then show ?thesis
    unfolding get_hand_run_def Let_def thumb_test_21 [OF assms]
    by (simp add: spec_sum_def)
qed

lemma spec_finger_range: "0 \<le> spec_finger lm t j \<and> spec_finger lm t j \<le> 1"
  by (simp add: spec_finger_def)

text \<open>
  C8. For every input of 21 landmarks and every handedness label \<^verbatim>\<open>get_hand_run\<close> returns
  (it raises nothing) the value \<open>max 1 (min 6 S)\<close>, where \<open>S\<close> is the specification's sum
  \<open>spec_sum\<close>: 6 for the thumb test plus 1 for each of the four fingers. The result lies in
  \<open>[1, 6]\<close>; a sum of 0 gives 1 and a sum above 6 gives 6.
\<close>

theorem C8_get_hand_run_clamped_sum:
  assumes "length lm = 21"
  shows "\<exists>r. get_hand_run lm h = Inr r \<and> r = max 1 (min 6 (spec_sum lm)) \<and>
             1 \<le> r \<and> r \<le> 6 \<and> (r = 1) = (spec_sum lm \<le> 1) \<and> (r = 6) = (6 \<le> spec_sum lm)"
  using assms by (auto simp add: get_hand_run_21)

theorem C8_witness:
  "length fist = 21 \<and> spec_sum fist = 0 \<and> get_hand_run fist ''Left'' = Inr 1 \<and>
   length two_fingers = 21 \<and> spec_sum two_fingers = 2 \<and>
   get_hand_run two_fingers ''Right'' = Inr 2 \<and>
   length thumb_and_index = 21 \<and> spec_sum thumb_and_index = 7 \<and>
   get_hand_run thumb_and_index ''Right'' = Inr 6"
proof -
  have len: "length fist = 21" "length two_fingers = 21" "length thumb_and_index = 21"
    by (simp_all add: fist_def two_fingers_def thumb_and_index_def hand_of_ys_def)
  have sums: "spec_sum fist = 0" "spec_sum two_fingers = 2" "spec_sum thumb_and_index = 7"
    by (simp_all add: fist_def two_fingers_def thumb_and_index_def hand_of_ys_def
        spec_sum_def spec_thumb_def spec_finger_def)
  show ?thesis
    using C8_get_hand_run_clamped_sum [OF len(1), of "''Left''"]
      C8_get_hand_run_clamped_sum [OF len(2), of "''Right''"]
      C8_get_hand_run_clamped_sum [OF len(3), of "''Right''"]
    by (simp add: len sums)
qed

text \<open>
  C10. For every input of 21 landmarks on which the thumb test passes (landmark 4 is above
  landmarks 3, 8, 12 and 16), \<^verbatim>\<open>get_hand_run\<close> returns exactly 6, whatever the other four
  fingers show.
\<close>

theorem C10_thumb_gives_six:
  assumes "length lm = 21"
    and "lm_y (lm ! 4) < lm_y (lm ! 3)" and "lm_y (lm ! 4) < lm_y (lm ! 8)"
    and "lm_y (lm ! 4) < lm_y (lm ! 12)" and "lm_y (lm ! 4) < lm_y (lm ! 16)"
  shows "get_hand_run lm h = Inr 6"
proof -
  have thumb: "spec_thumb lm"
    using assms(2-5) by (simp add: spec_thumb_def)
  have "0 \<le> spec_finger lm 8 6" "0 \<le> spec_finger lm 12 10"
       "0 \<le> spec_finger lm 16 14" "0 \<le> spec_finger lm 20 18"
    by (simp_all add: spec_finger_range)
  with thumb have "6 \<le> spec_sum lm"
    by (simp add: spec_sum_def)
  with assms(1) show ?thesis
    by (simp add: get_hand_run_21)
qed

theorem C10_witness:
  "length thumb_and_index = 21 \<and>
   lm_y (thumb_and_index ! 4) < lm_y (thumb_and_index ! 3) \<and>
   lm_y (thumb_and_index ! 4) < lm_y (thumb_and_index ! 8) \<and>
   lm_y (thumb_and_index ! 4) < lm_y (thumb_and_index ! 12) \<and>
   lm_y (thumb_and_index ! 4) < lm_y (thumb_and_index ! 16) \<and>
   lm_y (thumb_and_index ! 8) < lm_y (thumb_and_index ! 6) \<and>
   get_hand_run thumb_and_index ''Left'' = Inr 6"
proof -
  have facts: "length thumb_and_index = 21"
    "lm_y (thumb_and_index ! 4) < lm_y (thumb_and_index ! 3)"
    "lm_y (thumb_and_index ! 4) < lm_y (thumb_and_index ! 8)"
    "lm_y (thumb_and_index ! 4) < lm_y (thumb_and_index ! 12)"
    "lm_y (thumb_and_index ! 4) < lm_y (thumb_and_index ! 16)"
    "lm_y (thumb_and_index ! 8) < lm_y (thumb_and_index ! 6)"
    by (simp_all add: thumb_and_index_def hand_of_ys_def)
  from C10_thumb_gives_six [OF facts(1-5), of "''Left''"] facts show ?thesis
    by simp
qed

section \<open>The branches of the game logic\<close>

lemma logic_idle:
  "\<not> game_started g \<Longrightarrow> game_state_logic inp g = Inr (g\<lparr>gametext := press_s_text\<rparr>)"
  by (simp add: game_state_logic_def)

lemma logic_negative:
  "game_started g \<Longrightarrow> clock g < 0 \<Longrightarrow> game_state_logic inp g = Inr g"
  by (simp add: game_state_logic_def)

lemma logic_lead_in:
  "game_started g \<Longrightarrow> 0 \<le> clock g \<Longrightarrow> clock g < 5 \<Longrightarrow>
   game_state_logic inp g = Inr (g\<lparr>success := True, gametext := ''Get Ready...''\<rparr>)"
  by (simp add: game_state_logic_def)

lemma logic_awaiting:
  "game_started g \<Longrightarrow> 5 \<le> clock g \<Longrightarrow> clock g < 15 \<Longrightarrow>
   game_state_logic inp g =
   Inr (g\<lparr>gametext := (if is_player_batting g then ''You'' else ''Computer'') @
                        '' batting - Show your hand!''\<rparr>)"
  by (simp add: game_state_logic_def)

lemma logic_capture:
  "game_started g \<Longrightarrow> clock g = 15 \<Longrightarrow> game_state_logic inp g = capture inp g"
  by (simp add: game_state_logic_def)

lemma logic_resolve:
  "game_started g \<Longrightarrow> 15 < clock g \<Longrightarrow> clock g < 25 \<Longrightarrow> game_state_logic inp g = resolve g"
  by (simp add: game_state_logic_def)

lemma logic_checkpoint:
  "game_started g \<Longrightarrow> clock g = 25 \<Longrightarrow> game_state_logic inp g = Inr (checkpoint g)"
  by (simp add: game_state_logic_def)

lemma logic_auto_advance:
  "game_started g \<Longrightarrow> 25 < clock g \<Longrightarrow> game_state_logic inp g = Inr (auto_advance g)"
  by (simp add: game_state_logic_def)

text \<open>The branches as a case rule: one case for each, with what the logic computes there.\<close>

lemma logic_phases [case_names idle negative lead_in awaiting capture resolve checkpoint
    auto_advance]:
  obtains "\<not> game_started g" "game_state_logic inp g = Inr (g\<lparr>gametext := press_s_text\<rparr>)"
  | "game_started g" "clock g < 0" "game_state_logic inp g = Inr g"
  | "game_started g" "0 \<le> clock g" "clock g < 5"
    "game_state_logic inp g = Inr (g\<lparr>success := True, gametext := ''Get Ready...''\<rparr>)"
  | t where "game_started g" "5 \<le> clock g" "clock g < 15"
    "game_state_logic inp g = Inr (g\<lparr>gametext := t\<rparr>)"
  | "game_started g" "clock g = 15" "game_state_logic inp g = capture inp g"
  | "game_started g" "15 < clock g" "clock g < 25" "game_state_logic inp g = resolve g"
  | "game_started g" "clock g = 25" "game_state_logic inp g = Inr (checkpoint g)"
  | "game_started g" "25 < clock g" "game_state_logic inp g = Inr (auto_advance g)"
proof (cases "game_started g")
  case False
  with that(1) show ?thesis by (simp add: logic_idle)
next
  case True
  consider "clock g < 0" | "0 \<le> clock g \<and> clock g < 5" | "5 \<le> clock g \<and> clock g < 15"
    | "clock g = 15" | "15 < clock g \<and> clock g < 25" | "clock g = 25" | "25 < clock g"
    by linarith
  then show ?thesis
  proof cases
    case 1
    with True that(2) show ?thesis by (simp add: logic_negative)
  next
    case 2
    with True that(3) show ?thesis by (simp add: logic_lead_in)
  next
    case 3
    with True that(4) show ?thesis by (simp add: logic_awaiting)
  next
    case 4
    with True that(5) show ?thesis by (simp add: logic_capture)
  next
    case 5
    with True that(6) show ?thesis by (simp add: logic_resolve)
  next
    case 6
    with True that(7) show ?thesis by (simp add: logic_checkpoint)
  next
    case 7
    with True that(8) show ?thesis by (simp add: logic_auto_advance)
  qed
qed

lemma get_hand_run_range: "get_hand_run lm h = Inr m \<Longrightarrow> 1 \<le> m \<and> m \<le> 6"
  by (auto simp add: get_hand_run_def Let_def split: sum.splits)

lemma random_choice_member: "xs \<noteq> [] \<Longrightarrow> random_choice xs r \<in> set xs"
  by (simp add: random_choice_def)

lemma capture_cases [consumes 1, case_names no_hand hand]:
  assumes "capture inp g = Inr g1"
  obtains "hands inp = []" "g1 = g\<lparr>success := False\<rparr>"
  | m c where "hands inp \<noteq> []" "g1 = g\<lparr>player_move := Some m, computer_move := Some c\<rparr>"
      "1 \<le> m" "m \<le> 6" "c \<in> set [1, 2, 3, 4, 6]"
proof (cases "hands inp")
  case Nil
  with assms that(1) show ?thesis by (simp add: capture_def)
next
  case (Cons hd tl)
  obtain lm h where hd: "hd = (lm, h)" by (cases hd)
  from assms Cons hd obtain m where m: "get_hand_run lm h = Inr m"
    and g1: "g1 = g\<lparr>player_move := Some m,
                     computer_move := Some (random_choice [1, 2, 3, 4, 6] (rnd inp))\<rparr>"
    by (auto simp add: capture_def split: sum.splits)
  have "random_choice [1, 2, 3, 4, 6::int] (rnd inp) \<in> set [1, 2, 3, 4, 6]"
    by (rule random_choice_member) simp
  moreover from Cons have "hands inp \<noteq> []" by simp
  ultimately show ?thesis
    using get_hand_run_range [OF m] g1 that(2) by blast
qed

lemma apply_outcome_cases [consumes 1, case_names dismissal player_runs computer_runs chase]:
  assumes "apply_outcome g = Inr g1"
  obtains t where "player_move g = computer_move g"
      "g1 = g\<lparr>gametext := t, is_out := True, game_over := (innings g = 2),
               scored_this_round := True\<rparr>"
  | run t where "player_move g \<noteq> computer_move g" "is_player_batting g"
      "player_move g = Some run"
      "g1 = g\<lparr>player_score := player_score g + run, gametext := t, scored_this_round := True\<rparr>"
  | run t where "player_move g \<noteq> computer_move g" "\<not> is_player_batting g"
      "computer_move g = Some run"
      "\<not> (innings g = 2 \<and> computer_score g + run > player_score g)"
      "g1 = g\<lparr>computer_score := computer_score g + run, gametext := t,
               scored_this_round := True\<rparr>"
  | run t where "player_move g \<noteq> computer_move g" "\<not> is_player_batting g"
      "computer_move g = Some run" "innings g = 2" "computer_score g + run > player_score g"
      "g1 = g\<lparr>computer_score := computer_score g + run, gametext := t, is_out := True,
               game_over := True, scored_this_round := True\<rparr>"
proof (cases "player_move g = computer_move g")
  case True
  with assms show ?thesis
    by (intro that(1)) (auto simp add: apply_outcome_def)
next
  case differ: False
  show ?thesis
  proof (cases "is_player_batting g")
    case True
    with differ assms obtain run where "player_move g = Some run"
      by (cases "player_move g") (auto simp add: apply_outcome_def)
    with True differ assms show ?thesis
      by (intro that(2)) (auto simp add: apply_outcome_def)
  next
    case False
    with differ assms obtain run where run: "computer_move g = Some run"
      by (cases "computer_move g") (auto simp add: apply_outcome_def)
    show ?thesis
    proof (cases "innings g = 2 \<and> computer_score g + run > player_score g")
      case True
      with False differ assms run show ?thesis
        by (intro that(4)) (auto simp add: apply_outcome_def Let_def)
    next
      case no_chase: False
      with False differ assms run show ?thesis
        by (intro that(3) [of run]) (auto simp add: apply_outcome_def Let_def)
    qed
  qed
qed

lemma resolve_cases [consumes 1, case_names unresolved scored outcome]:
  assumes "resolve g = Inr g1"
  obtains "\<not> success g" "g1 = g\<lparr>gametext := hand_not_detected_text\<rparr>"
  | r where "success g" "scored_this_round g" "g1 = g\<lparr>gameresult := r\<rparr>"
  | r where "success g" "\<not> scored_this_round g" "apply_outcome (g\<lparr>gameresult := r\<rparr>) = Inr g1"
proof -
  consider "\<not> success g" | "success g" "scored_this_round g"
    | "success g" "\<not> scored_this_round g"
    by blast
  then show ?thesis
  proof cases
    case 1
    with assms that(1) show ?thesis by (simp add: resolve_def)
  next
    case 2
    with assms that(2) show ?thesis by (auto simp add: resolve_def Let_def)
  next
    case 3
    with assms that(3) show ?thesis by (auto simp add: resolve_def Let_def)
  qed
qed

lemma handle_key_cases [consumes 1, case_names none restart start]:
  assumes "handle_key inp g = Inr g1"
  obtains "g1 = g" "\<not> restart_taken inp g \<or> \<not> game_started g"
  | "restart_taken inp g" "game_started g \<or> waitkey inp mod 256 \<noteq> 115" "g1 = restart g"
  | "\<not> game_started g" "waitkey inp mod 256 = 115"
    "g1 = g\<lparr>game_started := True, clock := 0, gametext := []\<rparr>"
  using assms
  by (auto simp add: handle_key_def restart_taken_def Let_def split: if_splits)

lemma loop_body_steps:
  assumes "loop_body inp g = Inr g1"
  obtains g2 g3 where "ret inp" "game_state_logic inp (round_start g) = Inr g2"
    "handle_key inp g2 = Inr g3" "g1 = clock_increment g3"
  using assms by (auto simp add: loop_body_def split: if_splits sum.splits)

section \<open>Innings, target and batting side\<close>

lemma match_inv_irrelevant [simp]:
  "match_inv (g\<lparr>gametext := t\<rparr>) = match_inv g"
  "match_inv (g\<lparr>gameresult := t\<rparr>) = match_inv g"
  "match_inv (g\<lparr>clock := k\<rparr>) = match_inv g"
  "match_inv (g\<lparr>success := b\<rparr>) = match_inv g"
  "match_inv (g\<lparr>player_move := m\<rparr>) = match_inv g"
  "match_inv (g\<lparr>computer_move := m\<rparr>) = match_inv g"
  "match_inv (g\<lparr>round_num := k\<rparr>) = match_inv g"
  "match_inv (g\<lparr>scored_this_round := b\<rparr>) = match_inv g"
  "match_inv (g\<lparr>game_started := b\<rparr>) = match_inv g"
  "match_inv (g\<lparr>player_score := k\<rparr>) = match_inv g"
  "match_inv (g\<lparr>computer_score := k\<rparr>) = match_inv g"
  "match_inv (g\<lparr>is_out := b\<rparr>) = match_inv g"
  by (simp_all add: match_inv_def)

lemma match_inv_round_start: "match_inv g \<Longrightarrow> match_inv (round_start g)"
  by (simp add: round_start_def)

lemma match_inv_capture: "match_inv g \<Longrightarrow> capture inp g = Inr g1 \<Longrightarrow> match_inv g1"
  by (erule capture_cases) simp_all

lemma match_inv_apply_outcome:
  assumes "match_inv g" and "apply_outcome g = Inr g1"
  shows "match_inv g1"
  using assms(2)
proof (cases rule: apply_outcome_cases)
  case (dismissal t)
  with assms(1) show ?thesis by (auto simp add: match_inv_def)
next
  case (player_runs run t)
  with assms(1) show ?thesis by simp
next
  case (computer_runs run t)
  with assms(1) show ?thesis by simp
next
  case (chase run t)
  with assms(1) show ?thesis by (auto simp add: match_inv_def)
qed

lemma match_inv_resolve:
  assumes "match_inv g" and "resolve g = Inr g1"
  shows "match_inv g1"
  using assms(2)
proof (cases rule: resolve_cases)
  case unresolved
  with assms(1) show ?thesis by simp
next
  case (scored r)
  with assms(1) show ?thesis by simp
next
  case (outcome r)
  from assms(1) have "match_inv (g\<lparr>gameresult := r\<rparr>)" by simp
  then show ?thesis using outcome(3) by (rule match_inv_apply_outcome)
qed

lemma match_inv_checkpoint: "match_inv g \<Longrightarrow> match_inv (checkpoint g)"
  by (auto simp add: match_inv_def checkpoint_def Let_def)

lemma match_inv_auto_advance: "match_inv g \<Longrightarrow> match_inv (auto_advance g)"
  by (simp add: auto_advance_def)

lemma match_inv_logic:
  assumes "match_inv g" and "game_state_logic inp g = Inr g1"
  shows "match_inv g1"
proof (cases rule: logic_phases [of g inp])
  case idle
  with assms show ?thesis by auto
next
  case negative
  with assms show ?thesis by auto
next
  case lead_in
  with assms show ?thesis by auto
next
  case (awaiting t)
  with assms show ?thesis by auto
next
  case capture
  with assms show ?thesis by (auto intro: match_inv_capture)
next
  case resolve
  with assms show ?thesis by (auto intro: match_inv_resolve)
next
  case checkpoint
  with assms show ?thesis by (auto intro: match_inv_checkpoint)
next
  case auto_advance
  with assms show ?thesis by (auto intro: match_inv_auto_advance)
qed

lemma match_inv_restart: "match_inv (restart g)"
  by (simp add: match_inv_def restart_def)

lemma match_inv_handle_key:
  assumes "match_inv g" and "handle_key inp g = Inr g1"
  shows "match_inv g1"
  using assms(2)
proof (cases rule: handle_key_cases)
  case none
  with assms(1) show ?thesis by simp
next
  case restart
  then show ?thesis by (simp add: match_inv_restart)
next
  case start
  with assms(1) show ?thesis by simp
qed

lemma match_inv_clock_increment: "match_inv g \<Longrightarrow> match_inv (clock_increment g)"
  by (simp add: clock_increment_def)

lemma match_inv_loop_body:
  assumes "match_inv g" and "loop_body inp g = Inr g1"
  shows "match_inv g1"
  using assms(2)
proof (rule loop_body_steps)
  fix g2 g3
  assume logic: "game_state_logic inp (round_start g) = Inr g2"
    and key: "handle_key inp g2 = Inr g3" and g1: "g1 = clock_increment g3"
  from assms(1) have "match_inv (round_start g)" by (rule match_inv_round_start)
  then have "match_inv g2" using logic by (rule match_inv_logic)
  then have "match_inv g3" using key by (rule match_inv_handle_key)
  then show ?thesis unfolding g1 by (rule match_inv_clock_increment)
qed

lemma reachable_match_inv: "reachable g \<Longrightarrow> match_inv g"
proof (induction rule: reachable.induct)
  case reachable_initial
  show ?case by (simp add: match_inv_def initial_game_def)
next
  case (reachable_pass g inp g1)
  then show ?case by (blast intro: match_inv_loop_body)
qed

text \<open>In the first innings of a reachable state the player bats: the score that becomes
  the target is the score of the side that batted first.\<close>

lemma reachable_first_innings:
  assumes "reachable g" "innings g = 1"
  shows "is_player_batting g \<and> target g = None \<and> \<not> game_over g"
  using reachable_match_inv [OF assms(1)] assms(2) by (auto simp add: match_inv_def)

lemma reachable_run_loop: "reachable g \<Longrightarrow> run_loop ins g = Inr g1 \<Longrightarrow> reachable g1"
proof (induction ins arbitrary: g)
  case Nil
  then show ?case by simp
next
  case (Cons i ins)
  from Cons.prems(2) obtain g2 where "loop_body i g = Inr g2" "run_loop ins g2 = Inr g1"
    by (auto split: sum.splits)
  with Cons.IH Cons.prems(1) show ?case
    by (blast intro: reachable_pass)
qed

subsection \<open>Where the target changes\<close>

lemma apply_outcome_target: "apply_outcome g = Inr g1 \<Longrightarrow> target g1 = target g"
  by (erule apply_outcome_cases) simp_all

lemma resolve_target: "resolve g = Inr g1 \<Longrightarrow> target g1 = target g"
  by (erule resolve_cases) (simp_all add: apply_outcome_target)

lemma logic_target:
  assumes "game_state_logic inp g = Inr g1" and "target g1 \<noteq> target g"
  shows "game_started g \<and> clock g = 25 \<and> is_out g \<and> innings g = 1 \<and>
         target g1 = Some (player_score g) \<and> innings g1 = 2 \<and> \<not> game_over g1"
proof (cases rule: logic_phases [of g inp])
  case idle
  with assms show ?thesis by auto
next
  case negative
  with assms show ?thesis by auto
next
  case lead_in
  with assms show ?thesis by auto
next
  case (awaiting t)
  with assms show ?thesis by auto
next
  case capture
  with assms have "capture inp g = Inr g1" by simp
  then have "target g1 = target g" by (rule capture_cases) simp_all
  with assms show ?thesis by simp
next
  case resolve
  with assms have "resolve g = Inr g1" by simp
  then have "target g1 = target g" by (rule resolve_target)
  with assms show ?thesis by simp
next
  case checkpoint
  with assms have "g1 = checkpoint g" by simp
  with assms(2) checkpoint(1,2) show ?thesis
    by (simp add: checkpoint_def Let_def split: if_splits)
next
  case auto_advance
  with assms show ?thesis by (auto simp add: auto_advance_def split: if_splits)
qed

lemma loop_body_target:
  assumes body: "loop_body inp g = Inr g1" and changed: "target g1 \<noteq> target g"
  shows "(clock g = 25 \<and> is_out g \<and> innings g = 1 \<and> target g1 = Some (player_score g) \<and>
          innings g1 = 2) \<or>
         (waitkey inp mod 256 = 110 \<and> target g1 = None \<and> innings g1 = 1)"
  using body
proof (rule loop_body_steps)
  fix g2 g3
  assume logic: "game_state_logic inp (round_start g) = Inr g2"
    and key: "handle_key inp g2 = Inr g3" and g1: "g1 = clock_increment g3"
  have rs: "target (round_start g) = target g" "clock (round_start g) = clock g"
    "is_out (round_start g) = is_out g" "innings (round_start g) = innings g"
    "player_score (round_start g) = player_score g"
    by (simp_all add: round_start_def)
  have inc: "target g1 = target g3" "innings g1 = innings g3"
    unfolding g1 by (simp_all add: clock_increment_def)
  from key show ?thesis
  proof (cases rule: handle_key_cases)
    case none
    with inc changed rs have "target g2 \<noteq> target (round_start g)" by simp
    from logic_target [OF logic this] none inc rs show ?thesis by simp
  next
    case restart
    with inc show ?thesis by (simp add: restart_def restart_taken_def)
  next
    case start
    with inc changed rs have "target g2 \<noteq> target (round_start g)" by simp
    from logic_target [OF logic this] start inc rs show ?thesis by simp
  qed
qed

section \<open>What one pass does\<close>

lemma texts_distinct:
  "you_won_text \<noteq> you_lost_text" "you_won_text \<noteq> tie_text" "you_lost_text \<noteq> tie_text"
  by (simp_all add: you_won_text_def you_lost_text_def tie_text_def)

text \<open>
  C3. In a pass with the match started, the clock strictly between 15 and 25, the capture
  succeeded (both moves recorded, in the ranges the capture produces),
  \<^verbatim>\<open>scored_this_round\<close> false and the moves different, exactly the batting side's score
  grows, by that side's own move: the player's score by the player's move when the player
  bats, otherwise the computer's score by the computer's move. The other score is unchanged.
\<close>

theorem C3_batting_side_scores:
  assumes "game_started g" "15 < clock g" "clock g < 25" "success g"
    "\<not> scored_this_round g" "player_move g = Some p" "computer_move g = Some c" "p \<noteq> c"
    "1 \<le> p" "p \<le> 6" "c \<in> set [1, 2, 3, 4, 6]"
  shows "\<exists>g1. game_state_logic inp g = Inr g1 \<and>
           (if is_player_batting g
            then player_score g1 = player_score g + p \<and> player_score g < player_score g1 \<and>
                 computer_score g1 = computer_score g
            else computer_score g1 = computer_score g + c \<and>
                 computer_score g < computer_score g1 \<and> player_score g1 = player_score g)"
proof -
  from assms(11) have "1 \<le> c" by auto
  with assms(1-9) show ?thesis
    by (simp add: logic_resolve resolve_def apply_outcome_def Let_def)
qed

theorem C3_witness:
  "reachable player_bats \<and> game_started player_bats \<and> 15 < clock player_bats \<and>
   clock player_bats < 25 \<and> success player_bats \<and> \<not> scored_this_round player_bats \<and>
   player_move player_bats = Some 2 \<and> computer_move player_bats = Some 1 \<and>
   is_player_batting player_bats \<and> player_score player_bats = 6 \<and>
   (\<exists>g1. game_state_logic no_hand player_bats = Inr g1 \<and> player_score g1 = 8 \<and>
         computer_score g1 = 0) \<and>
   reachable scenario_b \<and> \<not> is_player_batting scenario_b \<and>
   player_move scenario_b = Some 2 \<and> computer_move scenario_b = Some 6 \<and>
   computer_score scenario_b = 3 \<and>
   (\<exists>g1. game_state_logic no_hand scenario_b = Inr g1 \<and> computer_score g1 = 9 \<and>
         player_score g1 = 8)"
proof -
  have "run_loop to_player_bats initial_game = Inr player_bats"
    "run_loop to_scenario_b initial_game = Inr scenario_b"
    by code_simp+
  then have reach: "reachable player_bats" "reachable scenario_b"
    using reachable_initial by (blast intro: reachable_run_loop)+
  have a: "game_started player_bats" "15 < clock player_bats"
    "clock player_bats < 25" "success player_bats"
    "\<not> scored_this_round player_bats" "player_move player_bats = Some 2"
    "computer_move player_bats = Some 1"
    by (simp_all add: player_bats_def)
  have b: "game_started scenario_b" "15 < clock scenario_b" "clock scenario_b < 25"
    "success scenario_b" "\<not> scored_this_round scenario_b" "player_move scenario_b = Some 2"
    "computer_move scenario_b = Some 6"
    by (simp_all add: scenario_b_def)
  have more: "is_player_batting player_bats" "player_score player_bats = 6"
    "computer_score player_bats = 0" "\<not> is_player_batting scenario_b"
    "computer_score scenario_b = 3" "player_score scenario_b = 8"
    by (simp_all add: player_bats_def scenario_b_def)
  have "\<exists>g1. game_state_logic no_hand player_bats = Inr g1 \<and> player_score g1 = 8 \<and>
             computer_score g1 = 0"
    using C3_batting_side_scores [OF a, of no_hand] more by auto
  moreover have "\<exists>g1. game_state_logic no_hand scenario_b = Inr g1 \<and> computer_score g1 = 9 \<and>
             player_score g1 = 8"
    using C3_batting_side_scores [OF b, of no_hand] more by auto
  ultimately show ?thesis using reach a b more by simp
qed

text \<open>
  C5. In a pass with the match started, the clock at 25, the innings 1 and \<^verbatim>\<open>is_out\<close> true,
  the game logic makes the innings transition: \<^verbatim>\<open>target\<close> becomes the player's score,
  \<^verbatim>\<open>is_player_batting\<close> and \<^verbatim>\<open>is_out\<close> become false, \<^verbatim>\<open>innings\<close> becomes 2,
  \<^verbatim>\<open>game_over\<close> is false afterwards and both scores are unchanged.
\<close>

theorem C5_innings_transition:
  assumes "game_started g" "clock g = 25" "innings g = 1" "is_out g"
  shows "\<exists>g1. game_state_logic inp g = Inr g1 \<and> target g1 = Some (player_score g) \<and>
           \<not> is_player_batting g1 \<and> \<not> is_out g1 \<and> innings g1 = 2 \<and> \<not> game_over g1 \<and>
           player_score g1 = player_score g \<and> computer_score g1 = computer_score g"
  using assms by (simp add: logic_checkpoint checkpoint_def)

theorem C5_witness:
  "reachable at_checkpoint \<and> game_started at_checkpoint \<and> clock at_checkpoint = 25 \<and>
   innings at_checkpoint = 1 \<and> is_out at_checkpoint \<and> is_player_batting at_checkpoint \<and>
   (\<exists>g1. game_state_logic no_hand at_checkpoint = Inr g1 \<and> target g1 = Some 0 \<and>
         \<not> is_player_batting g1 \<and> \<not> is_out g1 \<and> innings g1 = 2 \<and> \<not> game_over g1)"
proof -
  have "run_loop first_round_out initial_game = Inr at_checkpoint"
    by code_simp
  with reachable_initial have "reachable at_checkpoint"
    by (rule reachable_run_loop)
  moreover have hyps: "game_started at_checkpoint" "clock at_checkpoint = 25"
    "innings at_checkpoint = 1" "is_out at_checkpoint"
    by (simp_all add: at_checkpoint_def)
  moreover have "is_player_batting at_checkpoint" "player_score at_checkpoint = 0"
    by (simp_all add: at_checkpoint_def)
  ultimately show ?thesis
    using C5_innings_transition [OF hyps, of no_hand] by auto
qed

text \<open>
  C6. In a pass with the match started, the clock at 25, the innings 2 and \<^verbatim>\<open>is_out\<close> true
  (whether or not the chase shortcut ended the match before), the game logic sets
  \<^verbatim>\<open>game_over\<close> and announces exactly one result: a win when the player's score is the
  greater, a loss when the computer's is, a tie when they are equal.
\<close>

theorem C6_match_finalization:
  assumes "game_started g" "clock g = 25" "innings g = 2" "is_out g"
  shows "\<exists>g1. game_state_logic inp g = Inr g1 \<and> game_over g1 \<and>
           won g1 = (player_score g > computer_score g) \<and>
           lost g1 = (computer_score g > player_score g) \<and>
           tied g1 = (player_score g = computer_score g) \<and>
           player_score g1 = player_score g \<and> computer_score g1 = computer_score g"
  using assms texts_distinct
  by (auto simp add: logic_checkpoint checkpoint_def won_def lost_def tied_def Let_def)

theorem C6_witness:
  "reachable match_end \<and> game_started match_end \<and> clock match_end = 25 \<and>
   innings match_end = 2 \<and> is_out match_end \<and> player_score match_end = 8 \<and>
   computer_score match_end = 5 \<and>
   (\<exists>g1. game_state_logic no_hand match_end = Inr g1 \<and> game_over g1 \<and> won g1 \<and>
         \<not> lost g1 \<and> \<not> tied g1)"
proof -
  have "run_loop to_match_end initial_game = Inr match_end"
    by code_simp
  with reachable_initial have reach: "reachable match_end"
    by (rule reachable_run_loop)
  have hyps: "game_started match_end" "clock match_end = 25" "innings match_end = 2"
    "is_out match_end"
    by (simp_all add: match_end_def)
  have scores: "player_score match_end = 8" "computer_score match_end = 5"
    by (simp_all add: match_end_def)
  from C6_match_finalization [OF hyps, of no_hand] hyps scores reach show ?thesis
    by auto
qed

subsection \<open>The restart\<close>

text \<open>A pass that takes the restart key ends in the state that \<open>restart\<close> assigns: the clock
  does not move, since the match is no longer started.\<close>

lemma restart_pass_result:
  assumes body: "loop_body inp g = Inr g1" and r: "restart_pass inp g"
  shows "\<exists>g2. game_state_logic inp (round_start g) = Inr g2 \<and> game_over g2 \<and>
              waitkey inp mod 256 = 110 \<and> g1 = restart g2"
  using body
proof (rule loop_body_steps)
  fix g2 g3
  assume ret: "ret inp" and logic: "game_state_logic inp (round_start g) = Inr g2"
    and key: "handle_key inp g2 = Inr g3" and g1: "g1 = clock_increment g3"
  from r ret logic have taken: "waitkey inp mod 256 = 110" "game_over g2"
    by (simp_all add: restart_pass_def restart_taken_def)
  with key have "g3 = restart g2"
    by (simp add: handle_key_def Let_def)
  with g1 have "g1 = restart g2"
    by (simp add: clock_increment_def restart_def)
  with logic taken show ?thesis by blast
qed

text \<open>In a reachable state the game logic does not take back \<^verbatim>\<open>game_over\<close>.\<close>

lemma logic_game_over_kept:
  assumes inv: "match_inv g" and over: "game_over g"
    and logic: "game_state_logic inp g = Inr g2"
  shows "game_over g2"
proof -
  from inv over have two: "innings g = 2" by (simp add: match_inv_def)
  show ?thesis
  proof (cases rule: logic_phases [of g inp])
    case idle
    with logic over show ?thesis by auto
  next
    case negative
    with logic over show ?thesis by auto
  next
    case lead_in
    with logic over show ?thesis by auto
  next
    case (awaiting t)
    with logic over show ?thesis by auto
  next
    case capture
    with logic have "capture inp g = Inr g2" by simp
    then show ?thesis using over by (cases rule: capture_cases) simp_all
  next
    case resolve
    with logic have "resolve g = Inr g2" by simp
    then show ?thesis
    proof (cases rule: resolve_cases)
      case unresolved
      with over show ?thesis by simp
    next
      case (scored r)
      with over show ?thesis by simp
    next
      case (outcome r)
      from outcome(3) show ?thesis
        using over two by (cases rule: apply_outcome_cases) simp_all
    qed
  next
    case checkpoint
    with logic have "g2 = checkpoint g" by simp
    with over two show ?thesis by (simp add: checkpoint_def Let_def)
  next
    case auto_advance
    with logic have "g2 = auto_advance g" by simp
    with over show ?thesis by (simp add: auto_advance_def)
  qed
qed

text \<open>
  C7. In every state the loop reaches from the initial state, under any inputs (any keys
  among them), \<^verbatim>\<open>target\<close> is set exactly when \<^verbatim>\<open>innings\<close> is 2, and \<^verbatim>\<open>innings\<close> is 1
  or 2. A pass changes \<^verbatim>\<open>target\<close> in two ways only: at clock 25, from unset to the
  player's score, together with the step of \<^verbatim>\<open>innings\<close> from 1 to 2; and by the restart
  key, which unsets it and puts \<^verbatim>\<open>innings\<close> back to 1. So it is set at most once in a
  match, and a match that is over has it set. Every pass that takes the restart key ends
  with \<^verbatim>\<open>target\<close> unset and \<^verbatim>\<open>innings\<close> 1 (and the other variables at their initial
  values), and every pass with the key \<^verbatim>\<open>n\<close> from a state with \<^verbatim>\<open>game_over\<close> takes it:
  the two are reset together.
\<close>

theorem C7_target_iff_second_innings:
  assumes "reachable g"
  shows "(target g \<noteq> None) = (innings g = 2) \<and> (innings g = 1 \<or> innings g = 2) \<and>
         (game_over g \<longrightarrow> target g \<noteq> None) \<and>
         (\<forall>inp g1. loop_body inp g = Inr g1 \<and> target g1 \<noteq> target g \<longrightarrow>
            (clock g = 25 \<and> innings g = 1 \<and> target g = None \<and>
             target g1 = Some (player_score g) \<and> innings g1 = 2) \<or>
            (waitkey inp mod 256 = 110 \<and> innings g = 2 \<and> target g1 = None \<and> innings g1 = 1)) \<and>
         (\<forall>inp g1. loop_body inp g = Inr g1 \<and> restart_pass inp g \<longrightarrow>
            target g1 = None \<and> innings g1 = 1 \<and> is_player_batting g1 \<and> \<not> game_over g1 \<and>
            \<not> game_started g1 \<and> player_score g1 = 0 \<and> computer_score g1 = 0 \<and> clock g1 = 0) \<and>
         (\<forall>inp g1. loop_body inp g = Inr g1 \<and> game_over g \<and> waitkey inp mod 256 = 110 \<longrightarrow>
            restart_pass inp g \<and> target g \<noteq> None \<and> target g1 = None \<and> innings g = 2 \<and>
            innings g1 = 1)"
proof -
  from assms have inv: "match_inv g" by (rule reachable_match_inv)
  then have state: "(target g \<noteq> None) = (innings g = 2)" "innings g = 1 \<or> innings g = 2"
    "game_over g \<longrightarrow> target g \<noteq> None"
    by (auto simp add: match_inv_def)
  have change: "(clock g = 25 \<and> innings g = 1 \<and> target g = None \<and>
         target g1 = Some (player_score g) \<and> innings g1 = 2) \<or>
        (waitkey inp mod 256 = 110 \<and> innings g = 2 \<and> target g1 = None \<and> innings g1 = 1)"
    if "loop_body inp g = Inr g1" "target g1 \<noteq> target g" for inp g1
    using loop_body_target [OF that] that(2) state by auto
  have reset: "target g1 = None \<and> innings g1 = 1 \<and> is_player_batting g1 \<and> \<not> game_over g1 \<and>
            \<not> game_started g1 \<and> player_score g1 = 0 \<and> computer_score g1 = 0 \<and> clock g1 = 0"
    if "loop_body inp g = Inr g1" "restart_pass inp g" for inp g1
    using restart_pass_result [OF that] by (auto simp add: restart_def)
  have taken: "restart_pass inp g"
    if body: "loop_body inp g = Inr g1" and over: "game_over g"
      and key: "waitkey inp mod 256 = 110" for inp g1
    using body
  proof (rule loop_body_steps)
    fix g2 g3
    assume ret: "ret inp" and logic: "game_state_logic inp (round_start g) = Inr g2"
    from inv have "match_inv (round_start g)" by (rule match_inv_round_start)
    moreover from over have "game_over (round_start g)" by (simp add: round_start_def)
    ultimately have "game_over g2" using logic by (rule logic_game_over_kept)
    with ret logic key show ?thesis
      by (simp add: restart_pass_def restart_taken_def)
  qed
  have pressed: "restart_pass inp g \<and> target g \<noteq> None \<and> target g1 = None \<and> innings g = 2 \<and>
            innings g1 = 1"
    if "loop_body inp g = Inr g1" "game_over g" "waitkey inp mod 256 = 110" for inp g1
    using taken [OF that] reset [OF that(1) taken [OF that]] state that(2) by simp
  have c4: "\<forall>inp g1. loop_body inp g = Inr g1 \<and> target g1 \<noteq> target g \<longrightarrow>
            (clock g = 25 \<and> innings g = 1 \<and> target g = None \<and>
             target g1 = Some (player_score g) \<and> innings g1 = 2) \<or>
            (waitkey inp mod 256 = 110 \<and> innings g = 2 \<and> target g1 = None \<and> innings g1 = 1)"
    using change by blast
  have c5: "\<forall>inp g1. loop_body inp g = Inr g1 \<and> restart_pass inp g \<longrightarrow>
            target g1 = None \<and> innings g1 = 1 \<and> is_player_batting g1 \<and> \<not> game_over g1 \<and>
            \<not> game_started g1 \<and> player_score g1 = 0 \<and> computer_score g1 = 0 \<and> clock g1 = 0"
    using reset by blast
  have c6: "\<forall>inp g1. loop_body inp g = Inr g1 \<and> game_over g \<and> waitkey inp mod 256 = 110 \<longrightarrow>
            restart_pass inp g \<and> target g \<noteq> None \<and> target g1 = None \<and> innings g = 2 \<and>
            innings g1 = 1"
    using pressed by blast
  show ?thesis
    by (intro conjI, fact state(1), fact state(2), fact state(3), fact c4, fact c5, fact c6)
qed

theorem C7_witness:
  "reachable at_checkpoint \<and> target at_checkpoint = None \<and> innings at_checkpoint = 1 \<and>
   loop_body no_hand at_checkpoint = Inr second_innings \<and>
   reachable second_innings \<and> target second_innings = Some 0 \<and> innings second_innings = 2 \<and>
   reachable chase_after_checkpoint \<and> game_over chase_after_checkpoint \<and>
   target chase_after_checkpoint = Some 8 \<and> innings chase_after_checkpoint = 2 \<and>
   waitkey (key_pass 110) mod 256 = 110 \<and> restart_pass (key_pass 110) chase_after_checkpoint \<and>
   loop_body (key_pass 110) chase_after_checkpoint = Inr restarted_game \<and>
   target restarted_game = None \<and> innings restarted_game = 1"
proof -
  have "run_loop first_round_out initial_game = Inr at_checkpoint"
    by code_simp
  with reachable_initial have r1: "reachable at_checkpoint"
    by (rule reachable_run_loop)
  have step: "loop_body no_hand at_checkpoint = Inr second_innings"
    by code_simp
  with r1 have r2: "reachable second_innings"
    by (rule reachable_pass)
  have "run_loop (to_scenario_b @ replicate 10 no_hand) initial_game =
        Inr chase_after_checkpoint"
    by code_simp
  with reachable_initial have r3: "reachable chase_after_checkpoint"
    by (rule reachable_run_loop)
  have restart_step: "loop_body (key_pass 110) chase_after_checkpoint = Inr restarted_game"
    by code_simp
  have facts: "target at_checkpoint = None" "target second_innings = Some 0"
    "game_over chase_after_checkpoint" "target chase_after_checkpoint = Some 8"
    "waitkey (key_pass 110) mod 256 = 110"
    by code_simp+
  note t1 = C7_target_iff_second_innings [OF r1]
  note t2 = C7_target_iff_second_innings [OF r2]
  note t3 = C7_target_iff_second_innings [OF r3]
  from t1 facts(1) have i1: "innings at_checkpoint = 1" by blast
  from t2 facts(2) have i2: "innings second_innings = 2" by blast
  from t3 facts(4) have i3: "innings chase_after_checkpoint = 2" by blast
  from t3 have "loop_body (key_pass 110) chase_after_checkpoint = Inr restarted_game \<and>
      game_over chase_after_checkpoint \<and> waitkey (key_pass 110) mod 256 = 110 \<longrightarrow>
      restart_pass (key_pass 110) chase_after_checkpoint \<and> target restarted_game = None \<and>
      innings restarted_game = 1"
    by blast
  with restart_step facts have after: "restart_pass (key_pass 110) chase_after_checkpoint"
    "target restarted_game = None" "innings restarted_game = 1"
    by simp_all
  from r1 r2 r3 step restart_step facts i1 i2 i3 after show ?thesis
    by simp
qed

section \<open>Clock, dismissal flag and moves in the reachable states\<close>

lemma round_inv_irrelevant [simp]:
  "round_inv (g\<lparr>gametext := t\<rparr>) = round_inv g"
  "round_inv (g\<lparr>gameresult := t\<rparr>) = round_inv g"
  "round_inv (g\<lparr>round_num := k\<rparr>) = round_inv g"
  "round_inv (g\<lparr>scored_this_round := b\<rparr>) = round_inv g"
  "round_inv (g\<lparr>player_score := k\<rparr>) = round_inv g"
  "round_inv (g\<lparr>computer_score := k\<rparr>) = round_inv g"
  by (simp_all add: round_inv_def valid_moves_def)

lemma clock_increment_irrelevant [simp]:
  "clock_increment (g\<lparr>gametext := t\<rparr>) = (clock_increment g)\<lparr>gametext := t\<rparr>"
  "clock_increment (g\<lparr>gameresult := t\<rparr>) = (clock_increment g)\<lparr>gameresult := t\<rparr>"
  by (simp_all add: clock_increment_def)

lemma round_inv_round_start: "round_inv (round_start g) = round_inv g"
  by (simp add: round_start_def)

lemma round_start_fields [simp]:
  "clock (round_start g) = clock g" "game_started (round_start g) = game_started g"
  by (simp_all add: round_start_def)

lemma round_inv_apply_outcome:
  assumes "round_inv g" "game_started g" "15 < clock g" "clock g < 25"
    and "apply_outcome g = Inr g1"
  shows "round_inv (clock_increment g1) \<and> game_started g1"
  using assms(5)
proof (cases rule: apply_outcome_cases)
  case (dismissal t)
  with assms(1-4) show ?thesis
    by (simp add: round_inv_def clock_increment_def valid_moves_def)
next
  case (player_runs run t)
  with assms(1-4) show ?thesis
    by (simp add: round_inv_def clock_increment_def valid_moves_def)
next
  case (computer_runs run t)
  with assms(1-4) show ?thesis
    by (simp add: round_inv_def clock_increment_def valid_moves_def)
next
  case (chase run t)
  with assms(1-4) show ?thesis
    by (simp add: round_inv_def clock_increment_def valid_moves_def)
qed

lemma round_inv_quiet:
  assumes "round_inv g" "game_started g" "15 < clock g" "clock g < 25"
  shows "round_inv (clock_increment g)"
  using assms by (auto simp add: round_inv_def clock_increment_def valid_moves_def)

lemma round_inv_resolve:
  assumes "round_inv g" "game_started g" "15 < clock g" "clock g < 25"
    and "resolve g = Inr g1"
  shows "round_inv (clock_increment g1) \<and> game_started g1"
  using assms(5)
proof (cases rule: resolve_cases)
  case unresolved
  with round_inv_quiet [OF assms(1-4)] assms(2) show ?thesis by simp
next
  case (scored r)
  with round_inv_quiet [OF assms(1-4)] assms(2) show ?thesis by simp
next
  case (outcome r)
  have "round_inv (g\<lparr>gameresult := r\<rparr>)" "game_started (g\<lparr>gameresult := r\<rparr>)"
    "15 < clock (g\<lparr>gameresult := r\<rparr>)" "clock (g\<lparr>gameresult := r\<rparr>) < 25"
    using assms(1-4) by simp_all
  then show ?thesis using outcome(3) by (rule round_inv_apply_outcome)
qed

lemma round_inv_logic:
  assumes inv: "round_inv g" and started: "game_started g"
    and logic: "game_state_logic inp g = Inr g1"
  shows "round_inv (clock_increment g1) \<and> game_started g1"
proof (cases rule: logic_phases [of g inp])
  case idle
  with started show ?thesis by simp
next
  case negative
  with logic have "g1 = g" by simp
  with inv negative show ?thesis
    by (auto simp add: round_inv_def clock_increment_def valid_moves_def)
next
  case lead_in
  with logic have "g1 = g\<lparr>success := True, gametext := ''Get Ready...''\<rparr>" by simp
  with inv lead_in show ?thesis
    by (auto simp add: round_inv_def clock_increment_def valid_moves_def)
next
  case (awaiting t)
  with logic have "g1 = g\<lparr>gametext := t\<rparr>" by simp
  moreover have "round_inv (clock_increment g)"
    using inv awaiting by (auto simp add: round_inv_def clock_increment_def valid_moves_def)
  ultimately show ?thesis using started by simp
next
  case capture
  with logic have "capture inp g = Inr g1" by simp
  then show ?thesis
  proof (cases rule: capture_cases)
    case no_hand
    with inv capture show ?thesis
      by (auto simp add: round_inv_def clock_increment_def valid_moves_def)
  next
    case (hand m c)
    with inv capture show ?thesis
      by (auto simp add: round_inv_def clock_increment_def valid_moves_def)
  qed
next
  case resolve
  with logic have "resolve g = Inr g1" by simp
  with inv started resolve(2,3) show ?thesis by (rule round_inv_resolve)
next
  case checkpoint
  with logic have "g1 = checkpoint g" by simp
  with inv checkpoint show ?thesis
    by (auto simp add: round_inv_def clock_increment_def valid_moves_def checkpoint_def Let_def)
next
  case auto_advance
  with logic have "g1 = auto_advance g" by simp
  with inv auto_advance show ?thesis
    by (auto simp add: round_inv_def clock_increment_def valid_moves_def auto_advance_def)
qed

lemma round_inv_restart: "round_inv (clock_increment (restart g))"
  by (simp add: round_inv_def clock_increment_def restart_def)

lemma round_inv_loop_body:
  assumes inv: "round_inv g" and body: "loop_body inp g = Inr g1"
  shows "round_inv g1"
  using body
proof (rule loop_body_steps)
  fix g2 g3
  assume logic: "game_state_logic inp (round_start g) = Inr g2"
    and key: "handle_key inp g2 = Inr g3" and g1: "g1 = clock_increment g3"
  have inv': "round_inv (round_start g)"
    using inv by (simp add: round_inv_round_start)
  show ?thesis
  proof (cases "game_started g")
    case True
    with round_inv_logic [OF inv' _ logic]
    have 2: "round_inv (clock_increment g2)" "game_started g2" by simp_all
    from key show ?thesis
    proof (cases rule: handle_key_cases)
      case none
      with 2 g1 show ?thesis by simp
    next
      case restart
      with g1 show ?thesis by (simp add: round_inv_restart)
    next
      case start
      with 2 show ?thesis by simp
    qed
  next
    case False
    then have rs: "round_start g = g" by (simp add: round_start_def)
    from False logic have g2: "g2 = g\<lparr>gametext := press_s_text\<rparr>"
      by (simp add: rs logic_idle)
    from key show ?thesis
    proof (cases rule: handle_key_cases)
      case none
      with inv False g1 g2 show ?thesis
        by (auto simp add: round_inv_def clock_increment_def valid_moves_def)
    next
      case restart
      with g1 show ?thesis by (simp add: round_inv_restart)
    next
      case start
      with inv False g1 g2 show ?thesis
        by (auto simp add: round_inv_def clock_increment_def valid_moves_def)
    qed
  qed
qed

lemma reachable_round_inv: "reachable g \<Longrightarrow> round_inv g"
proof (induction rule: reachable.induct)
  case reachable_initial
  show ?case by (simp add: round_inv_def initial_game_def)
next
  case (reachable_pass g inp g1)
  then show ?case by (blast intro: round_inv_loop_body)
qed

text \<open>In a reachable state past clock 15 with \<^verbatim>\<open>success\<close> true, the match is started and
  both moves are recorded, in the classifier's range and from the generator's list: what
  "the capture succeeded" means in the statements about the outcome.\<close>

lemma reachable_capture_succeeded:
  assumes "reachable g" "15 < clock g" "success g"
  shows "game_started g \<and> valid_moves g"
proof -
  from assms(1) have "round_inv g" by (rule reachable_round_inv)
  with assms(2,3) show ?thesis by (auto simp add: round_inv_def)
qed

section \<open>Passes that leave the match as it is\<close>

lemma handle_key_plain:
  assumes "waitkey inp mod 256 \<noteq> 113" "game_started g" "\<not> restart_taken inp g"
  shows "handle_key inp g = Inr g"
  using assms by (auto simp add: handle_key_def restart_taken_def Let_def)

lemma clock_increment_running:
  "game_started g \<Longrightarrow> clock g \<le> 50 \<Longrightarrow> clock_increment g = g\<lparr>clock := clock g + 1\<rparr>"
  by (simp add: clock_increment_def)

lemma run_loop_append:
  "run_loop (xs @ ys) g = (case run_loop xs g of Inl st \<Rightarrow> Inl st | Inr g1 \<Rightarrow> run_loop ys g1)"
  by (induction xs arbitrary: g) (simp_all split: sum.splits)

text \<open>A pass whose game logic returns \<open>g2\<close>, with the match started, no quit key and no
  restart taken, ends in \<open>g2\<close> with the clock one further.\<close>

lemma pass_after_logic:
  assumes "ret inp" "waitkey inp mod 256 \<noteq> 113"
    and "game_state_logic inp (round_start g) = Inr g2"
    and "game_started g2" "\<not> restart_taken inp g2" "clock g2 \<le> 50"
  shows "loop_body inp g = Inr (g2\<lparr>clock := clock g2 + 1\<rparr>)"
  using assms by (simp add: loop_body_def handle_key_plain clock_increment_running)

text \<open>Between clock 16 and 25, once the outcome is applied or when the capture failed, and
  with no dismissal pending at clock 25, a pass changes only the two texts and the clock.\<close>

lemma quiet_logic:
  assumes "game_started g" "15 < clock g" "clock g \<le> 25"
    and "scored_this_round g \<or> \<not> success g" and "clock g = 25 \<longrightarrow> \<not> is_out g"
  shows "\<exists>t r. game_state_logic inp g = Inr (g\<lparr>gametext := t, gameresult := r\<rparr>) \<and>
           (\<not> success g \<and> clock g < 25 \<longrightarrow> t = hand_not_detected_text) \<and>
           (success g \<or> clock g = 25 \<longrightarrow> t = gametext g)"
proof -
  let ?r = "''You: '' @ str_move (player_move g) @ ''  |  Computer: '' @
            str_move (computer_move g)"
  consider "clock g = 25" | "clock g < 25" "success g" | "clock g < 25" "\<not> success g"
    using assms(3) by fastforce
  then show ?thesis
  proof cases
    case 1
    with assms have "game_state_logic inp g =
        Inr (g\<lparr>gametext := gametext g, gameresult := gameresult g\<rparr>)"
      by (simp add: logic_checkpoint checkpoint_def)
    with 1 show ?thesis
      by (intro exI [of _ "gametext g"] exI [of _ "gameresult g"]) simp
  next
    case 2
    with assms have "game_state_logic inp g = Inr (g\<lparr>gametext := gametext g, gameresult := ?r\<rparr>)"
      by (simp add: logic_resolve resolve_def Let_def)
    with 2 show ?thesis
      by (intro exI [of _ "gametext g"] exI [of _ ?r]) simp
  next
    case 3
    with assms have "game_state_logic inp g =
        Inr (g\<lparr>gametext := hand_not_detected_text, gameresult := gameresult g\<rparr>)"
      by (simp add: logic_resolve resolve_def)
    with 3 show ?thesis
      by (intro exI [of _ hand_not_detected_text] exI [of _ "gameresult g"]) simp
  qed
qed

lemma quiet_pass:
  assumes started: "game_started g" and clk: "15 < clock g" "clock g \<le> 25"
    and quiet: "scored_this_round g \<or> \<not> success g" "clock g = 25 \<longrightarrow> \<not> is_out g"
    and inp: "ret inp" "waitkey inp mod 256 \<noteq> 113" "\<not> restart_taken inp g"
  shows "\<exists>t r. loop_body inp g =
                Inr (g\<lparr>gametext := t, gameresult := r, clock := clock g + 1\<rparr>) \<and>
           (\<not> success g \<and> clock g < 25 \<longrightarrow> t = hand_not_detected_text) \<and>
           (success g \<or> clock g = 25 \<longrightarrow> t = gametext g)"
proof -
  from clk have rs: "round_start g = g" by (simp add: round_start_def)
  from quiet_logic [OF started clk quiet, of inp] obtain t r where
    logic: "game_state_logic inp g = Inr (g\<lparr>gametext := t, gameresult := r\<rparr>)" and
    tr: "(\<not> success g \<and> clock g < 25 \<longrightarrow> t = hand_not_detected_text) \<and>
         (success g \<or> clock g = 25 \<longrightarrow> t = gametext g)"
    by blast
  let ?g2 = "g\<lparr>gametext := t, gameresult := r\<rparr>"
  have "loop_body inp g = Inr (?g2\<lparr>clock := clock ?g2 + 1\<rparr>)"
    using inp(1,2)
  proof (rule pass_after_logic)
    show "game_state_logic inp (round_start g) = Inr ?g2" using logic by (simp add: rs)
    show "game_started ?g2" using started by simp
    show "\<not> restart_taken inp ?g2" using inp(3) by (simp add: restart_taken_def)
    show "clock ?g2 \<le> 50" using clk by simp
  qed
  then have "loop_body inp g = Inr (g\<lparr>gametext := t, gameresult := r, clock := clock g + 1\<rparr>)"
    by simp
  with tr show ?thesis by blast
qed

lemma quiet_run:
  assumes "game_started g" "15 < clock g" "clock g + int (length ins) \<le> 26"
    and "scored_this_round g \<or> \<not> success g"
    and "clock g + int (length ins) = 26 \<longrightarrow> \<not> is_out g"
    and "\<forall>i \<in> set ins. ret i \<and> waitkey i mod 256 \<noteq> 113 \<and> \<not> restart_taken i g"
  shows "\<exists>t r. run_loop ins g =
                Inr (g\<lparr>gametext := t, gameresult := r, clock := clock g + int (length ins)\<rparr>) \<and>
           (\<not> success g \<and> ins \<noteq> [] \<and> clock g < 25 \<longrightarrow> t = hand_not_detected_text) \<and>
           (success g \<or> ins = [] \<or> clock g = 25 \<longrightarrow> t = gametext g)"
  using assms
proof (induction ins arbitrary: g)
  case Nil
  have "run_loop [] g = Inr (g\<lparr>gametext := gametext g, gameresult := gameresult g,
                             clock := clock g + int (length ([]::tick_input list))\<rparr>)"
    by simp
  then show ?case by blast
next
  case (Cons i ins)
  from Cons.prems have ok: "ret i" "waitkey i mod 256 \<noteq> 113" "\<not> restart_taken i g"
    by simp_all
  from Cons.prems have clk: "15 < clock g" "clock g \<le> 25" by simp_all
  from Cons.prems have out: "clock g = 25 \<longrightarrow> \<not> is_out g" by auto
  from quiet_pass [OF Cons.prems(1) clk Cons.prems(4) out ok] obtain t r where
    body: "loop_body i g = Inr (g\<lparr>gametext := t, gameresult := r, clock := clock g + 1\<rparr>)" and
    tr: "\<not> success g \<and> clock g < 25 \<longrightarrow> t = hand_not_detected_text"
        "success g \<or> clock g = 25 \<longrightarrow> t = gametext g"
    by blast
  let ?g1 = "g\<lparr>gametext := t, gameresult := r, clock := clock g + 1\<rparr>"
  have "\<exists>t' r'. run_loop ins ?g1 =
          Inr (?g1\<lparr>gametext := t', gameresult := r', clock := clock ?g1 + int (length ins)\<rparr>) \<and>
          (\<not> success ?g1 \<and> ins \<noteq> [] \<and> clock ?g1 < 25 \<longrightarrow> t' = hand_not_detected_text) \<and>
          (success ?g1 \<or> ins = [] \<or> clock ?g1 = 25 \<longrightarrow> t' = gametext ?g1)"
  proof (rule Cons.IH)
    show "game_started ?g1" using Cons.prems(1) by simp
    show "15 < clock ?g1" using clk by simp
    show "clock ?g1 + int (length ins) \<le> 26" using Cons.prems(3) by simp
    show "scored_this_round ?g1 \<or> \<not> success ?g1" using Cons.prems(4) by simp
    show "clock ?g1 + int (length ins) = 26 \<longrightarrow> \<not> is_out ?g1" using Cons.prems(5) by simp
    show "\<forall>i \<in> set ins. ret i \<and> waitkey i mod 256 \<noteq> 113 \<and> \<not> restart_taken i ?g1"
      using Cons.prems(6) by (simp add: restart_taken_def)
  qed
  then obtain t' r' where
    run: "run_loop ins ?g1 =
          Inr (?g1\<lparr>gametext := t', gameresult := r', clock := clock ?g1 + int (length ins)\<rparr>)" and
    tr': "\<not> success g \<and> ins \<noteq> [] \<and> clock g + 1 < 25 \<longrightarrow> t' = hand_not_detected_text"
         "success g \<or> ins = [] \<or> clock g + 1 = 25 \<longrightarrow> t' = t"
    by auto
  have "run_loop (i # ins) g =
        Inr (g\<lparr>gametext := t', gameresult := r', clock := clock g + int (length (i # ins))\<rparr>)"
    using body run by (simp add: add.assoc add.commute)
  moreover have "\<not> success g \<and> i # ins \<noteq> [] \<and> clock g < 25 \<longrightarrow> t' = hand_not_detected_text"
    using tr tr' by auto
  moreover have "success g \<or> i # ins = [] \<or> clock g = 25 \<longrightarrow> t' = gametext g"
  proof (cases "clock g = 25")
    case True
    with Cons.prems(3) have "ins = []" by simp
    with tr tr' True show ?thesis by simp
  next
    case False
    with tr tr' show ?thesis by auto
  qed
  ultimately show ?case by blast
qed

text \<open>The pass at clock 15 with no hand in the frame.\<close>

lemma no_hand_capture_pass:
  assumes "game_started g" "\<not> game_over g" "clock g = 15" "hands inp = []"
    and "ret inp" "waitkey inp mod 256 \<noteq> 113"
  shows "loop_body inp g = Inr (g\<lparr>success := False, clock := 16\<rparr>)"
proof -
  from assms(3) have rs: "round_start g = g" by (simp add: round_start_def)
  let ?g2 = "g\<lparr>success := False\<rparr>"
  have "loop_body inp g = Inr (?g2\<lparr>clock := clock ?g2 + 1\<rparr>)"
    using assms(5,6)
  proof (rule pass_after_logic)
    show "game_state_logic inp (round_start g) = Inr ?g2"
      using assms(1,3,4) by (simp add: rs logic_capture capture_def)
    show "game_started ?g2" using assms(1) by simp
    show "\<not> restart_taken inp ?g2" using assms(2) by (simp add: restart_taken_def)
    show "clock ?g2 \<le> 50" using assms(3) by simp
  qed
  with assms(3) show ?thesis by simp
qed

text \<open>The pass after clock 25 while the match goes on: the next round.\<close>

lemma auto_advance_pass:
  assumes "game_started g" "\<not> game_over g" "25 < clock g"
    and "ret inp" "waitkey inp mod 256 \<noteq> 113"
  shows "loop_body inp g =
         Inr (g\<lparr>clock := 0, gametext := [], gameresult := [], player_move := None,
                computer_move := None, success := True\<rparr>)"
proof -
  from assms(3) have rs: "round_start g = g" by (simp add: round_start_def)
  let ?g2 = "auto_advance g"
  have "loop_body inp g = Inr (?g2\<lparr>clock := clock ?g2 + 1\<rparr>)"
    using assms(4,5)
  proof (rule pass_after_logic)
    show "game_state_logic inp (round_start g) = Inr ?g2"
      using assms(1,3) by (simp add: rs logic_auto_advance)
    show "game_started ?g2" using assms(1) by (simp add: auto_advance_def)
    show "\<not> restart_taken inp ?g2" using assms(2) by (simp add: restart_taken_def auto_advance_def)
    show "clock ?g2 \<le> 50" using assms(2) by (simp add: auto_advance_def)
  qed
  with assms(2) show ?thesis by (simp add: auto_advance_def)
qed

section \<open>A round in which no hand is detected\<close>

text \<open>
  C9. From a reachable state at clock 15, let the pass at clock 15 find no hand, and let up
  to 11 more passes follow (camera reads succeed and the quit key is not pressed; any other
  key may be). Then the loop goes on, no move is recorded, and the scores, \<^verbatim>\<open>is_out\<close>,
  \<^verbatim>\<open>innings\<close>, \<^verbatim>\<open>game_over\<close>, \<^verbatim>\<open>target\<close>, the batting side and the round number are what
  they were; \<^verbatim>\<open>success\<close> is false and, from the pass at clock 16 on, the text is the
  retry message. After the eleventh further pass (the one at clock 26) the clock is back at 0
  and \<^verbatim>\<open>success\<close> is true again: the next round starts.
\<close>

theorem C9_no_hand_round:
  assumes reach: "reachable g" and clk: "clock g = 15" and nohand: "hands inp = []"
    and ok: "\<forall>i \<in> set (inp # ins). ret i \<and> waitkey i mod 256 \<noteq> 113"
    and len: "length ins \<le> 11"
  shows "\<exists>g1. run_loop (inp # ins) g = Inr g1 \<and>
           player_score g1 = player_score g \<and> computer_score g1 = computer_score g \<and>
           is_out g1 = is_out g \<and> innings g1 = innings g \<and> game_over g1 = game_over g \<and>
           \<not> is_out g1 \<and> \<not> game_over g1 \<and> target g1 = target g \<and>
           is_player_batting g1 = is_player_batting g \<and> round_num g1 = round_num g \<and>
           scored_this_round g1 = scored_this_round g \<and>
           player_move g1 = None \<and> computer_move g1 = None \<and>
           (if length ins = 11 then clock g1 = 0 \<and> success g1
            else clock g1 = 16 + int (length ins) \<and> \<not> success g1) \<and>
           (ins \<noteq> [] \<and> length ins \<le> 10 \<longrightarrow> gametext g1 = hand_not_detected_text)"
proof -
  from reach have "round_inv g" by (rule reachable_round_inv)
  with clk have g: "game_started g" "\<not> is_out g" "\<not> game_over g"
    "player_move g = None" "computer_move g = None"
    by (auto simp add: round_inv_def)
  let ?g' = "g\<lparr>success := False, clock := 16\<rparr>"
  from ok have first: "loop_body inp g = Inr ?g'"
    by (intro no_hand_capture_pass g clk nohand) simp_all
  have quiet: "\<exists>t r. run_loop xs ?g' =
                 Inr (?g'\<lparr>gametext := t, gameresult := r, clock := clock ?g' + int (length xs)\<rparr>) \<and>
                 (\<not> success ?g' \<and> xs \<noteq> [] \<and> clock ?g' < 25 \<longrightarrow> t = hand_not_detected_text) \<and>
                 (success ?g' \<or> xs = [] \<or> clock ?g' = 25 \<longrightarrow> t = gametext ?g')"
    if "length xs \<le> 10" "set xs \<subseteq> set ins" for xs
  proof (rule quiet_run)
    show "game_started ?g'" using g by simp
    show "15 < clock ?g'" by simp
    show "clock ?g' + int (length xs) \<le> 26" using that(1) by simp
    show "scored_this_round ?g' \<or> \<not> success ?g'" by simp
    show "clock ?g' + int (length xs) = 26 \<longrightarrow> \<not> is_out ?g'" using g by simp
    show "\<forall>i \<in> set xs. ret i \<and> waitkey i mod 256 \<noteq> 113 \<and> \<not> restart_taken i ?g'"
      using ok that(2) g by (auto simp add: restart_taken_def)
  qed
  show ?thesis
  proof (cases "length ins = 11")
    case False
    with len have n: "length ins \<le> 10" by simp
    from quiet [OF n subset_refl] obtain t r where
      run: "run_loop ins ?g' =
            Inr (?g'\<lparr>gametext := t, gameresult := r, clock := clock ?g' + int (length ins)\<rparr>)"
      and t: "ins \<noteq> [] \<longrightarrow> t = hand_not_detected_text"
      by auto
    from first run have "run_loop (inp # ins) g =
        Inr (?g'\<lparr>gametext := t, gameresult := r, clock := clock ?g' + int (length ins)\<rparr>)"
      by simp
    with False g t show ?thesis by simp
  next
    case True
    then obtain xs l where ins: "ins = xs @ [l]" and xs: "length xs = 10"
      by (cases ins rule: rev_cases) simp_all
    from xs ins have "length xs \<le> 10" "set xs \<subseteq> set ins" by auto
    from quiet [OF this] obtain t r where
      run: "run_loop xs ?g' =
            Inr (?g'\<lparr>gametext := t, gameresult := r, clock := clock ?g' + int (length xs)\<rparr>)"
      by auto
    let ?g2 = "?g'\<lparr>gametext := t, gameresult := r, clock := clock ?g' + int (length xs)\<rparr>"
    have last: "loop_body l ?g2 =
        Inr (?g2\<lparr>clock := 0, gametext := [], gameresult := [], player_move := None,
                  computer_move := None, success := True\<rparr>)"
    proof (rule auto_advance_pass)
      show "game_started ?g2" using g by simp
      show "\<not> game_over ?g2" using g by simp
      show "25 < clock ?g2" using xs by simp
      show "ret l" "waitkey l mod 256 \<noteq> 113" using ok ins by simp_all
    qed
    from first run last have "run_loop (inp # ins) g =
        Inr (?g2\<lparr>clock := 0, gametext := [], gameresult := [], player_move := None,
                  computer_move := None, success := True\<rparr>)"
      unfolding ins by (simp add: run_loop_append)
    with True g show ?thesis by simp
  qed
qed

theorem C9_witness:
  "reachable at_capture \<and> clock at_capture = 15 \<and> hands no_hand = [] \<and>
   (\<exists>g1. run_loop (no_hand # replicate 5 (key_pass 110)) at_capture = Inr g1 \<and>
         clock g1 = 21 \<and> \<not> success g1 \<and> player_score g1 = 0 \<and> computer_score g1 = 0 \<and>
         \<not> is_out g1 \<and> innings g1 = 1 \<and> \<not> game_over g1 \<and> player_move g1 = None \<and>
         gametext g1 = hand_not_detected_text) \<and>
   (\<exists>g1. run_loop (no_hand # replicate 11 no_hand) at_capture = Inr g1 \<and>
         clock g1 = 0 \<and> success g1 \<and> player_score g1 = 0 \<and> computer_score g1 = 0 \<and>
         \<not> is_out g1 \<and> innings g1 = 1 \<and> \<not> game_over g1 \<and> player_move g1 = None)"
proof -
  have "run_loop (key_pass 115 # replicate 14 no_hand) initial_game = Inr at_capture"
    by code_simp
  with reachable_initial have reach: "reachable at_capture"
    by (rule reachable_run_loop)
  have clk: "clock at_capture = 15" and nohand: "hands no_hand = []"
    by (simp_all add: at_capture_def no_hand_def)
  have fields: "player_score at_capture = 0" "computer_score at_capture = 0"
    "innings at_capture = 1"
    by (simp_all add: at_capture_def)
  have ok1: "\<forall>i \<in> set (no_hand # replicate 5 (key_pass 110)). ret i \<and> waitkey i mod 256 \<noteq> 113"
    by (simp add: no_hand_def key_pass_def)
  have ok2: "\<forall>i \<in> set (no_hand # replicate 11 no_hand). ret i \<and> waitkey i mod 256 \<noteq> 113"
    by (simp add: no_hand_def)
  have "\<exists>g1. run_loop (no_hand # replicate 5 (key_pass 110)) at_capture = Inr g1 \<and>
         clock g1 = 21 \<and> \<not> success g1 \<and> player_score g1 = 0 \<and> computer_score g1 = 0 \<and>
         \<not> is_out g1 \<and> innings g1 = 1 \<and> \<not> game_over g1 \<and> player_move g1 = None \<and>
         gametext g1 = hand_not_detected_text"
    using C9_no_hand_round [OF reach clk nohand ok1] fields by auto
  moreover have "\<exists>g1. run_loop (no_hand # replicate 11 no_hand) at_capture = Inr g1 \<and>
         clock g1 = 0 \<and> success g1 \<and> player_score g1 = 0 \<and> computer_score g1 = 0 \<and>
         \<not> is_out g1 \<and> innings g1 = 1 \<and> \<not> game_over g1 \<and> player_move g1 = None"
    using C9_no_hand_round [OF reach clk nohand ok2] fields by auto
  ultimately show ?thesis using reach clk nohand by simp
qed

section \<open>The chase in the second innings\<close>

lemma chase_logic:
  assumes "game_started g" "15 < clock g" "clock g < 25" "success g"
    "\<not> scored_this_round g" "\<not> is_player_batting g" "innings g = 2"
    "computer_move g = Some c" "player_move g \<noteq> computer_move g"
    "player_score g < computer_score g + c"
  shows "game_state_logic inp g =
         Inr (g\<lparr>gameresult := ''You: '' @ str_move (player_move g) @ ''  |  Computer: '' @
                                str_move (computer_move g),
                computer_score := computer_score g + c,
                gametext := ''Computer Won! They chased the target of '' @
                            str_int (player_score g + 1) @ ''!'',
                is_out := True, game_over := True, scored_this_round := True\<rparr>)"
  using assms by (simp add: logic_resolve resolve_def apply_outcome_def Let_def)

text \<open>The pass at clock 25 with a dismissal pending in the second innings.\<close>

lemma finalize_pass:
  assumes "game_started g" "clock g = 25" "is_out g" "innings g = 2"
    and "ret inp" "waitkey inp mod 256 \<noteq> 113" "waitkey inp mod 256 \<noteq> 110"
  shows "loop_body inp g =
         Inr (g\<lparr>game_over := True,
                gametext := (if player_score g > computer_score g then you_won_text
                             else if computer_score g > player_score g then you_lost_text
                             else tie_text),
                clock := 26\<rparr>)"
proof -
  from assms(2) have rs: "round_start g = g" by (simp add: round_start_def)
  let ?g2 = "checkpoint g"
  have "loop_body inp g = Inr (?g2\<lparr>clock := clock ?g2 + 1\<rparr>)"
    using assms(5,6)
  proof (rule pass_after_logic)
    show "game_state_logic inp (round_start g) = Inr ?g2"
      using assms(1,2) by (simp add: rs logic_checkpoint)
    show "game_started ?g2" using assms(1) by (simp add: checkpoint_def Let_def)
    show "\<not> restart_taken inp ?g2" using assms(7) by (simp add: restart_taken_def)
    show "clock ?g2 \<le> 50" using assms(2) by (simp add: checkpoint_def Let_def)
  qed
  with assms(2,3,4) show ?thesis by (simp add: checkpoint_def Let_def)
qed

text \<open>
  C4, as the code has it. When the computer bats in the second innings and its move takes
  its score past the player's, the pass that applies the outcome sets \<^verbatim>\<open>is_out\<close> and
  \<^verbatim>\<open>game_over\<close> and announces the computer's win. The checkpoint is not bypassed: as long
  as the camera reads succeed and neither the quit key nor the restart key is pressed in the
  passes up to clock 25, the clock goes on, and the pass at clock 25 takes the finalize
  branch, which keeps \<^verbatim>\<open>game_over\<close> and announces the player's loss.
\<close>

theorem C4_chase_then_finalize:
  assumes "game_started g" "15 < clock g" "clock g < 25" "success g"
    "\<not> scored_this_round g" "\<not> is_player_batting g" "innings g = 2"
    "computer_move g = Some c" "player_move g \<noteq> computer_move g"
    "player_score g < computer_score g + c"
  shows "(\<exists>g1. game_state_logic inp g = Inr g1 \<and> is_out g1 \<and> game_over g1 \<and>
            computer_score g1 = computer_score g + c \<and> player_score g1 = player_score g \<and>
            gametext g1 = ''Computer Won! They chased the target of '' @
                          str_int (player_score g + 1) @ ''!'') \<and>
         (clock g + int (length ins) = 26 \<and>
          (\<forall>i \<in> set ins. ret i \<and> waitkey i mod 256 \<noteq> 113 \<and> waitkey i mod 256 \<noteq> 110) \<longrightarrow>
          (\<exists>g2 g3 l. run_loop (butlast ins) g = Inr g2 \<and> clock g2 = 25 \<and> is_out g2 \<and>
            game_over g2 \<and> \<not> lost g2 \<and> ins = butlast ins @ [l] \<and>
            game_state_logic l g2 = Inr (checkpoint g2) \<and>
            loop_body l g2 = Inr g3 \<and> run_loop ins g = Inr g3 \<and>
            clock g3 = 26 \<and> is_out g3 \<and> game_over g3 \<and> lost g3 \<and> \<not> won g3 \<and> \<not> tied g3 \<and>
            computer_score g3 = computer_score g + c \<and> player_score g3 = player_score g))"
proof -
  define t0 where "t0 = ''Computer Won! They chased the target of '' @
                        str_int (player_score g + 1) @ ''!''"
  define r0 where "r0 = ''You: '' @ str_move (player_move g) @ ''  |  Computer: '' @
                        str_move (computer_move g)"
  define g1 where "g1 = g\<lparr>gameresult := r0, computer_score := computer_score g + c,
                           gametext := t0, is_out := True, game_over := True,
                           scored_this_round := True\<rparr>"
  have logic: "game_state_logic inp' g = Inr g1" for inp'
    unfolding g1_def t0_def r0_def using assms(1-10) by (rule chase_logic)
  have g1: "game_started g1" "clock g1 = clock g" "success g1" "scored_this_round g1"
    "is_out g1" "game_over g1" "innings g1 = 2" "gametext g1 = t0"
    "computer_score g1 = computer_score g + c" "player_score g1 = player_score g"
    using assms(1,4,7) by (simp_all add: g1_def)
  have a: "\<exists>g1. game_state_logic inp g = Inr g1 \<and> is_out g1 \<and> game_over g1 \<and>
            computer_score g1 = computer_score g + c \<and> player_score g1 = player_score g \<and>
            gametext g1 = ''Computer Won! They chased the target of '' @
                          str_int (player_score g + 1) @ ''!''"
    using logic [of inp] g1 by (simp add: t0_def)
  have b: "\<exists>g2 g3 l. run_loop (butlast ins) g = Inr g2 \<and> clock g2 = 25 \<and> is_out g2 \<and>
            game_over g2 \<and> \<not> lost g2 \<and> ins = butlast ins @ [l] \<and>
            game_state_logic l g2 = Inr (checkpoint g2) \<and>
            loop_body l g2 = Inr g3 \<and> run_loop ins g = Inr g3 \<and>
            clock g3 = 26 \<and> is_out g3 \<and> game_over g3 \<and> lost g3 \<and> \<not> won g3 \<and> \<not> tied g3 \<and>
            computer_score g3 = computer_score g + c \<and> player_score g3 = player_score g"
    if len: "clock g + int (length ins) = 26"
      and ok: "\<forall>i \<in> set ins. ret i \<and> waitkey i mod 256 \<noteq> 113 \<and> waitkey i mod 256 \<noteq> 110"
  proof -
    from len assms(3) have "2 \<le> length ins" by simp
    then obtain i mid l where ins: "ins = i # mid @ [l]"
      by (cases ins; cases "tl ins" rule: rev_cases) auto
    have rs: "round_start g = g" using assms(2) by (simp add: round_start_def)
    define g1' where "g1' = g1\<lparr>clock := clock g1 + 1\<rparr>"
    have first: "loop_body i g = Inr g1'"
      unfolding g1'_def
    proof (rule pass_after_logic)
      show "ret i" "waitkey i mod 256 \<noteq> 113" using ok ins by simp_all
      show "game_state_logic i (round_start g) = Inr g1" using logic by (simp add: rs)
      show "game_started g1" by (rule g1)
      show "\<not> restart_taken i g1" using ok ins by (simp add: restart_taken_def)
      show "clock g1 \<le> 50" using assms(3) g1 by simp
    qed
    have g1': "game_started g1'" "clock g1' = clock g + 1" "success g1'" "scored_this_round g1'"
      "is_out g1'" "game_over g1'" "innings g1' = 2" "gametext g1' = t0"
      "computer_score g1' = computer_score g + c" "player_score g1' = player_score g"
      using g1 by (simp_all add: g1'_def)
    have "\<exists>t r. run_loop mid g1' =
            Inr (g1'\<lparr>gametext := t, gameresult := r, clock := clock g1' + int (length mid)\<rparr>) \<and>
            (\<not> success g1' \<and> mid \<noteq> [] \<and> clock g1' < 25 \<longrightarrow> t = hand_not_detected_text) \<and>
            (success g1' \<or> mid = [] \<or> clock g1' = 25 \<longrightarrow> t = gametext g1')"
    proof (rule quiet_run)
      show "game_started g1'" by (rule g1')
      show "15 < clock g1'" using assms(2) g1' by simp
      show "clock g1' + int (length mid) \<le> 26" using len ins g1' by simp
      show "scored_this_round g1' \<or> \<not> success g1'" using g1' by simp
      show "clock g1' + int (length mid) = 26 \<longrightarrow> \<not> is_out g1'" using len ins g1' by simp
      show "\<forall>i \<in> set mid. ret i \<and> waitkey i mod 256 \<noteq> 113 \<and> \<not> restart_taken i g1'"
        using ok ins by (simp add: restart_taken_def)
    qed
    then obtain t r where
      run_mid: "run_loop mid g1' =
        Inr (g1'\<lparr>gametext := t, gameresult := r, clock := clock g1' + int (length mid)\<rparr>)"
      and t: "success g1' \<longrightarrow> t = gametext g1'"
      by blast
    define g2 where
      "g2 = g1'\<lparr>gametext := t, gameresult := r, clock := clock g1' + int (length mid)\<rparr>"
    from t g1' have t': "t = t0" by simp
    have g2: "game_started g2" "clock g2 = 25" "is_out g2" "game_over g2" "innings g2 = 2"
      "gametext g2 = t0" "computer_score g2 = computer_score g + c"
      "player_score g2 = player_score g"
      using g1' len ins t' by (simp_all add: g2_def)
    have mid: "run_loop mid g1' = Inr g2"
      using run_mid by (simp add: g2_def)
    define g3 where "g3 = g2\<lparr>game_over := True, gametext := you_lost_text, clock := 26\<rparr>"
    have last: "loop_body l g2 = Inr g3"
    proof -
      have "loop_body l g2 =
           Inr (g2\<lparr>game_over := True,
                  gametext := (if player_score g2 > computer_score g2 then you_won_text
                               else if computer_score g2 > player_score g2 then you_lost_text
                               else tie_text),
                  clock := 26\<rparr>)"
      proof (rule finalize_pass)
        show "game_started g2" "clock g2 = 25" "is_out g2" "innings g2 = 2" by (rule g2)+
        show "ret l" "waitkey l mod 256 \<noteq> 113" "waitkey l mod 256 \<noteq> 110"
          using ok ins by simp_all
      qed
      with assms(10) g2 show ?thesis by (simp add: g3_def)
    qed
    have g3: "clock g3 = 26" "is_out g3" "game_over g3" "gametext g3 = you_lost_text"
      "computer_score g3 = computer_score g + c" "player_score g3 = player_score g"
      using g2 by (simp_all add: g3_def)
    have split: "ins = butlast ins @ [l]" "butlast ins = i # mid"
      using ins by simp_all
    have run2: "run_loop (butlast ins) g = Inr g2"
      using first mid by (simp add: split(2))
    have run3: "run_loop ins g = Inr g3"
      using first mid last by (simp add: ins run_loop_append)
    have cp: "game_state_logic l g2 = Inr (checkpoint g2)"
      using g2 by (simp add: logic_checkpoint)
    have not_lost: "\<not> lost g2"
      using g2 by (simp add: lost_def you_lost_text_def t0_def)
    have res: "lost g3" "\<not> won g3" "\<not> tied g3"
      using g3 texts_distinct by (simp_all add: lost_def won_def tied_def)
    have "run_loop (butlast ins) g = Inr g2 \<and> clock g2 = 25 \<and> is_out g2 \<and>
              game_over g2 \<and> \<not> lost g2 \<and> ins = butlast ins @ [l] \<and>
              game_state_logic l g2 = Inr (checkpoint g2) \<and>
              loop_body l g2 = Inr g3 \<and> run_loop ins g = Inr g3 \<and>
              clock g3 = 26 \<and> is_out g3 \<and> game_over g3 \<and> lost g3 \<and> \<not> won g3 \<and> \<not> tied g3 \<and>
              computer_score g3 = computer_score g + c \<and> player_score g3 = player_score g"
      using run2 g2(2,3,4) not_lost split(1) cp last run3 g3(1,2,3,5,6) res
      by (intro conjI)
    then show ?thesis by blast
  qed
  from a b show ?thesis by blast
qed

theorem C4_witness:
  "reachable scenario_b \<and> game_started scenario_b \<and> 15 < clock scenario_b \<and> clock scenario_b < 25 \<and>
   success scenario_b \<and> \<not> scored_this_round scenario_b \<and> \<not> is_player_batting scenario_b \<and>
   innings scenario_b = 2 \<and> computer_move scenario_b = Some 6 \<and>
   player_move scenario_b \<noteq> computer_move scenario_b \<and>
   player_score scenario_b < computer_score scenario_b + 6 \<and>
   (\<exists>g1. game_state_logic no_hand scenario_b = Inr g1 \<and> is_out g1 \<and> game_over g1 \<and>
         computer_score g1 = 9 \<and> player_score g1 = 8) \<and>
   (\<exists>g3. run_loop (replicate 10 no_hand) scenario_b = Inr g3 \<and> clock g3 = 26 \<and>
         game_over g3 \<and> lost g3 \<and> computer_score g3 = 9 \<and> player_score g3 = 8)"
proof -
  have hyps: "game_started scenario_b" "15 < clock scenario_b" "clock scenario_b < 25"
    "success scenario_b" "\<not> scored_this_round scenario_b" "\<not> is_player_batting scenario_b"
    "innings scenario_b = 2" "computer_move scenario_b = Some 6"
    "player_move scenario_b \<noteq> computer_move scenario_b"
    "player_score scenario_b < computer_score scenario_b + 6"
    by (simp_all add: scenario_b_def)
  have ok: "\<forall>i \<in> set (replicate 10 no_hand).
              ret i \<and> waitkey i mod 256 \<noteq> 113 \<and> waitkey i mod 256 \<noteq> 110"
    by (simp add: no_hand_def)
  have len: "clock scenario_b + int (length (replicate 10 no_hand)) = 26"
    by (simp add: scenario_b_def)
  have scores: "computer_score scenario_b = 3" "player_score scenario_b = 8"
    by (simp_all add: scenario_b_def)
  have "run_loop to_scenario_b initial_game = Inr scenario_b"
    by code_simp
  with reachable_initial have "reachable scenario_b"
    by (rule reachable_run_loop)
  with C4_chase_then_finalize [OF hyps, of no_hand "replicate 10 no_hand"] hyps ok len scores
  show ?thesis
    by auto
qed

text \<open>
  C4 as the specification states it fails on the code. The match \<open>to_scenario_b\<close> reaches
  Scenario B; the pass at clock 16 ends the match with the computer's win; nine passes later,
  at clock 25, the finalize branch of the checkpoint runs all the same and it is this branch
  that announces the loss.
\<close>

theorem C4_counterexample:
  "run_loop to_scenario_b initial_game = Inr scenario_b \<and>
   run_loop (replicate 9 no_hand) scenario_b = Inr chase_at_checkpoint \<and>
   clock chase_at_checkpoint = 25 \<and> is_out chase_at_checkpoint \<and>
   game_over chase_at_checkpoint \<and> \<not> lost chase_at_checkpoint \<and>
   game_state_logic no_hand chase_at_checkpoint = Inr (checkpoint chase_at_checkpoint) \<and>
   loop_body no_hand chase_at_checkpoint = Inr chase_after_checkpoint \<and>
   lost chase_after_checkpoint"
  by code_simp

section \<open>At most one outcome in a round\<close>

lemma apply_outcome_scored: "apply_outcome g = Inr g1 \<Longrightarrow> scored_this_round g1"
  by (erule apply_outcome_cases) simp_all

lemma resolve_scored:
  assumes "resolve g = Inr g1"
  shows "scored_this_round g1 = (scored_this_round g \<or> success g)"
  using assms
proof (cases rule: resolve_cases)
  case unresolved
  then show ?thesis by simp
next
  case (scored r)
  then show ?thesis by simp
next
  case (outcome r)
  with apply_outcome_scored [OF outcome(3)] show ?thesis by simp
qed

text \<open>The game logic never clears the flag, and sets it only where the outcome is applied.\<close>

lemma logic_scored:
  assumes "game_state_logic inp g = Inr g1"
  shows "scored_this_round g1 =
         (scored_this_round g \<or> (game_started g \<and> 15 < clock g \<and> clock g < 25 \<and> success g))"
proof (cases rule: logic_phases [of g inp])
  case idle
  with assms show ?thesis by auto
next
  case negative
  with assms show ?thesis by auto
next
  case lead_in
  with assms show ?thesis by auto
next
  case (awaiting t)
  with assms show ?thesis by auto
next
  case capture
  with assms have "capture inp g = Inr g1" by simp
  then have "scored_this_round g1 = scored_this_round g"
    by (rule capture_cases) simp_all
  with capture show ?thesis by simp
next
  case resolve
  with assms have "resolve g = Inr g1" by simp
  from resolve_scored [OF this] resolve show ?thesis by simp
next
  case checkpoint
  with assms have "g1 = checkpoint g" by simp
  with checkpoint show ?thesis by (simp add: checkpoint_def Let_def)
next
  case auto_advance
  with assms have "g1 = auto_advance g" by simp
  with auto_advance show ?thesis by (simp add: auto_advance_def)
qed

lemma round_start_scored:
  "scored_this_round (round_start g) = (scored_this_round g \<and> \<not> (clock g = 0 \<and> game_started g))"
  by (simp add: round_start_def)

lemma sets_scored_applies: "sets_scored inp g \<Longrightarrow> applies_outcome inp g"
proof -
  assume s: "sets_scored inp g"
  then obtain g2 where ret: "ret inp"
    and logic: "game_state_logic inp (round_start g) = Inr g2"
    and flip: "\<not> scored_this_round (round_start g)" "scored_this_round g2"
    by (auto simp add: sets_scored_def split: sum.splits)
  from logic_scored [OF logic] flip
  have "game_started g \<and> 15 < clock g \<and> clock g < 25 \<and> success (round_start g)"
    by simp
  moreover from this have "round_start g = g" by (simp add: round_start_def)
  ultimately show ?thesis using ret flip(1) by (simp add: applies_outcome_def)
qed

text \<open>The condition \<open>applies_outcome\<close> is the path to the outcome block: under it the game
  logic is that block, and a pass that does not raise flips the flag exactly under it.\<close>

lemma applies_outcome_block:
  assumes "applies_outcome inp g"
  shows "game_state_logic inp (round_start g) =
         apply_outcome (g\<lparr>gameresult := ''You: '' @ str_move (player_move g) @
                                        ''  |  Computer: '' @ str_move (computer_move g)\<rparr>)"
proof -
  from assms have "round_start g = g"
    by (simp add: applies_outcome_def round_start_def)
  with assms show ?thesis
    by (simp add: applies_outcome_def logic_resolve resolve_def Let_def)
qed

lemma applies_outcome_sets_scored:
  assumes "game_state_logic inp (round_start g) = Inr g2"
  shows "sets_scored inp g = applies_outcome inp g"
proof
  assume "sets_scored inp g"
  then show "applies_outcome inp g" by (rule sets_scored_applies)
next
  assume a: "applies_outcome inp g"
  then have rs: "round_start g = g"
    by (simp add: applies_outcome_def round_start_def)
  from logic_scored [OF assms] a rs have "scored_this_round g2"
    by (simp add: applies_outcome_def)
  with a assms rs show "sets_scored inp g"
    by (simp add: sets_scored_def applies_outcome_def)
qed

text \<open>What a pass does to the flag, when it does not restart the match.\<close>

lemma loop_body_scored:
  assumes body: "loop_body inp g = Inr g1" and no_restart: "\<not> restart_pass inp g"
  shows "scored_this_round g1 = (applies_outcome inp g \<or>
           (scored_this_round g \<and> \<not> round_start_pass inp g))"
  using body
proof (rule loop_body_steps)
  fix g2 g3
  assume ret: "ret inp" and logic: "game_state_logic inp (round_start g) = Inr g2"
    and key: "handle_key inp g2 = Inr g3" and g1: "g1 = clock_increment g3"
  from no_restart ret logic have nr: "\<not> restart_taken inp g2"
    by (simp add: restart_pass_def)
  from key nr have "scored_this_round g3 = scored_this_round g2"
    by (cases rule: handle_key_cases) simp_all
  then have 1: "scored_this_round g1 = scored_this_round g2"
    by (simp add: g1 clock_increment_def)
  have 2: "scored_this_round g2 = (scored_this_round (round_start g) \<or>
        (game_started g \<and> 15 < clock g \<and> clock g < 25 \<and> success (round_start g)))"
    using logic_scored [OF logic] by simp
  show ?thesis
  proof (cases "clock g = 0 \<and> game_started g")
    case True
    with 1 2 ret show ?thesis
      by (simp add: round_start_scored applies_outcome_def round_start_pass_def)
  next
    case False
    then have "round_start g = g" by (auto simp add: round_start_def)
    with 1 2 ret False show ?thesis
      by (auto simp add: applies_outcome_def round_start_pass_def)
  qed
qed

lemma count_passes_mono:
  assumes "\<And>inp g. P inp g \<Longrightarrow> Q inp g"
  shows "count_passes P ins g \<le> count_passes Q ins g"
proof (induction ins arbitrary: g)
  case Nil
  show ?case by simp
next
  case (Cons i ins)
  show ?case
  proof (cases "loop_body i g")
    case (Inl st)
    with assms [of i g] show ?thesis by auto
  next
    case (Inr g1)
    with assms [of i g] Cons.IH [of g1] show ?thesis by auto
  qed
qed

lemma scored_no_more:
  assumes "scored_this_round g" and "no_reset ins g"
  shows "count_passes applies_outcome ins g = 0"
  using assms
proof (induction ins arbitrary: g)
  case Nil
  show ?case by simp
next
  case (Cons i ins)
  from Cons.prems(1) have no: "\<not> applies_outcome i g"
    by (simp add: applies_outcome_def)
  show ?case
  proof (cases "loop_body i g")
    case (Inl st)
    with no show ?thesis by simp
  next
    case (Inr g1)
    with Cons.prems have "scored_this_round g1"
      using loop_body_scored [OF Inr] by simp
    moreover from Cons.prems(2) Inr have "no_reset ins g1" by simp
    ultimately have "count_passes applies_outcome ins g1 = 0" by (rule Cons.IH)
    with no Inr show ?thesis by simp
  qed
qed

lemma no_reset_at_most_once:
  assumes "no_reset ins g"
  shows "count_passes applies_outcome ins g \<le> 1"
  using assms
proof (induction ins arbitrary: g)
  case Nil
  show ?case by simp
next
  case (Cons i ins)
  show ?case
  proof (cases "loop_body i g")
    case (Inl st)
    then show ?thesis by simp
  next
    case (Inr g1)
    from Cons.prems Inr have rest: "no_reset ins g1" and nr: "\<not> restart_pass i g" by simp_all
    show ?thesis
    proof (cases "applies_outcome i g")
      case True
      with loop_body_scored [OF Inr nr] have "scored_this_round g1" by simp
      then have "count_passes applies_outcome ins g1 = 0" using rest by (rule scored_no_more)
      with True Inr show ?thesis by simp
    next
      case False
      with Cons.IH [OF rest] Inr show ?thesis by simp
    qed
  qed
qed

lemma round_start_outcome_fields:
  "player_score (round_start g) = player_score g"
  "computer_score (round_start g) = computer_score g"
  "is_out (round_start g) = is_out g"
  by (simp_all add: round_start_def)

lemma apply_outcome_unguarded_fields:
  assumes "apply_outcome g = Inr g1"
  shows "game_started g1 = game_started g"
  using assms by (cases rule: apply_outcome_cases) simp_all

text \<open>Outside the outcome block the game logic changes no score and raises no dismissal.\<close>

lemma logic_no_effect:
  assumes logic: "game_state_logic inp g = Inr g2"
    and other: "\<not> (game_started g \<and> 15 < clock g \<and> clock g < 25 \<and> success g \<and>
                   \<not> scored_this_round g)"
  shows "player_score g2 = player_score g \<and> computer_score g2 = computer_score g \<and>
         (is_out g2 \<longrightarrow> is_out g)"
proof (cases rule: logic_phases [of g inp])
  case idle
  with logic show ?thesis by auto
next
  case negative
  with logic show ?thesis by auto
next
  case lead_in
  with logic show ?thesis by auto
next
  case (awaiting t)
  with logic show ?thesis by auto
next
  case capture
  with logic have "capture inp g = Inr g2" by simp
  then show ?thesis by (rule capture_cases) simp_all
next
  case resolve
  with logic have "resolve g = Inr g2" by simp
  then show ?thesis
  proof (cases rule: resolve_cases)
    case unresolved
    then show ?thesis by simp
  next
    case (scored r)
    then show ?thesis by simp
  next
    case (outcome r)
    with resolve other show ?thesis by simp
  qed
next
  case checkpoint
  with logic have "g2 = checkpoint g" by simp
  then show ?thesis by (simp add: checkpoint_def Let_def)
next
  case auto_advance
  with logic have "g2 = auto_advance g" by simp
  then show ?thesis by (simp add: auto_advance_def)
qed

lemma outcome_effect_applies: "outcome_effect inp g \<Longrightarrow> applies_outcome inp g"
proof (rule ccontr)
  assume e: "outcome_effect inp g" and n: "\<not> applies_outcome inp g"
  from e obtain g2 where ret: "ret inp"
    and logic: "game_state_logic inp (round_start g) = Inr g2"
    and eff: "player_score g2 \<noteq> player_score g \<or> computer_score g2 \<noteq> computer_score g \<or>
              (is_out g2 \<and> \<not> is_out g)"
    by (auto simp add: outcome_effect_def split: sum.splits)
  have same: "15 < clock g \<Longrightarrow> round_start g = g"
    by (simp add: round_start_def)
  from n ret have "\<not> (game_started (round_start g) \<and> 15 < clock (round_start g) \<and>
      clock (round_start g) < 25 \<and> success (round_start g) \<and>
      \<not> scored_this_round (round_start g))"
    using same by (auto simp add: applies_outcome_def)
  from logic_no_effect [OF logic this] eff show False
    by (simp add: round_start_outcome_fields)
qed

text \<open>A pass that has no such effect and does not restart the match leaves both scores.\<close>

lemma loop_body_scores_kept:
  assumes body: "loop_body inp g = Inr g1" and "\<not> restart_pass inp g"
    and "\<not> outcome_effect inp g"
  shows "player_score g1 = player_score g \<and> computer_score g1 = computer_score g"
  using body
proof (rule loop_body_steps)
  fix g2 g3
  assume ret: "ret inp" and logic: "game_state_logic inp (round_start g) = Inr g2"
    and key: "handle_key inp g2 = Inr g3" and g1: "g1 = clock_increment g3"
  from assms(2) ret logic have nr: "\<not> restart_taken inp g2"
    by (simp add: restart_pass_def)
  from key nr have "player_score g3 = player_score g2 \<and> computer_score g3 = computer_score g2"
    by (cases rule: handle_key_cases) simp_all
  moreover from assms(3) ret logic
  have "player_score g2 = player_score g \<and> computer_score g2 = computer_score g"
    by (simp add: outcome_effect_def)
  ultimately show ?thesis by (simp add: g1 clock_increment_def)
qed

lemma no_effect_scores_kept:
  assumes "no_reset ins g" "count_passes outcome_effect ins g = 0" "run_loop ins g = Inr g1"
  shows "player_score g1 = player_score g \<and> computer_score g1 = computer_score g"
  using assms
proof (induction ins arbitrary: g)
  case Nil
  then show ?case by simp
next
  case (Cons i ins)
  from Cons.prems(3) obtain g2 where body: "loop_body i g = Inr g2"
    and rest: "run_loop ins g2 = Inr g1"
    by (auto split: sum.splits)
  from Cons.prems(1,2) body have "\<not> restart_pass i g" "\<not> outcome_effect i g"
    "no_reset ins g2" "count_passes outcome_effect ins g2 = 0"
    by (auto split: if_splits)
  with loop_body_scores_kept [OF body] Cons.IH [OF _ _ rest] show ?case by simp
qed

text \<open>What one pass adds to the scores, from a state that satisfies the invariant of the
  reachable states: nothing unless it applies the outcome, and then at most one move.\<close>

lemma apply_outcome_score_bound:
  assumes "apply_outcome g = Inr g1" "valid_moves g"
  shows "player_score g \<le> player_score g1 \<and> computer_score g \<le> computer_score g1 \<and>
         player_score g1 + computer_score g1 \<le> player_score g + computer_score g + 6"
  using assms(1)
proof (cases rule: apply_outcome_cases)
  case (dismissal t)
  then show ?thesis by simp
next
  case (player_runs run t)
  with assms(2) show ?thesis by (auto simp add: valid_moves_def)
next
  case (computer_runs run t)
  with assms(2) show ?thesis by (auto simp add: valid_moves_def)
next
  case (chase run t)
  with assms(2) show ?thesis by (auto simp add: valid_moves_def)
qed

lemma valid_moves_gameresult [simp]: "valid_moves (g\<lparr>gameresult := r\<rparr>) = valid_moves g"
  by (simp add: valid_moves_def)

lemma loop_body_score_bound:
  assumes inv: "round_inv g" and body: "loop_body inp g = Inr g1"
    and nr: "\<not> restart_pass inp g"
  shows "player_score g \<le> player_score g1 \<and> computer_score g \<le> computer_score g1 \<and>
         player_score g1 + computer_score g1 \<le>
         player_score g + computer_score g + 6 * int (if applies_outcome inp g then 1 else 0)"
  using body
proof (rule loop_body_steps)
  fix g2 g3
  assume ret: "ret inp" and logic: "game_state_logic inp (round_start g) = Inr g2"
    and key: "handle_key inp g2 = Inr g3" and g1: "g1 = clock_increment g3"
  from nr ret logic have "\<not> restart_taken inp g2"
    by (simp add: restart_pass_def)
  with key have "player_score g3 = player_score g2 \<and> computer_score g3 = computer_score g2"
    by (cases rule: handle_key_cases) simp_all
  then have end_of_pass: "player_score g1 = player_score g2" "computer_score g1 = computer_score g2"
    by (simp_all add: g1 clock_increment_def)
  show ?thesis
  proof (cases "applies_outcome inp g")
    case True
    then have a: "game_started g" "15 < clock g" "clock g < 25" "success g"
      "\<not> scored_this_round g"
      by (simp_all add: applies_outcome_def)
    then have rs: "round_start g = g" by (simp add: round_start_def)
    from inv a have valid: "valid_moves g" by (simp add: round_inv_def)
    from logic a have "resolve g = Inr g2" by (simp add: rs logic_resolve)
    then obtain r where "apply_outcome (g\<lparr>gameresult := r\<rparr>) = Inr g2"
      using a by (cases rule: resolve_cases) auto
    from apply_outcome_score_bound [OF this] valid True end_of_pass show ?thesis by simp
  next
    case False
    have same: "15 < clock g \<Longrightarrow> round_start g = g"
      by (simp add: round_start_def)
    from False ret have "\<not> (game_started (round_start g) \<and> 15 < clock (round_start g) \<and>
        clock (round_start g) < 25 \<and> success (round_start g) \<and>
        \<not> scored_this_round (round_start g))"
      using same by (auto simp add: applies_outcome_def)
    from logic_no_effect [OF logic this] False end_of_pass show ?thesis
      by (simp add: round_start_outcome_fields)
  qed
qed

lemma run_score_bound:
  assumes "round_inv g" "no_reset ins g" "run_loop ins g = Inr g1"
  shows "player_score g \<le> player_score g1 \<and> computer_score g \<le> computer_score g1 \<and>
         player_score g1 + computer_score g1 \<le>
         player_score g + computer_score g + 6 * int (count_passes applies_outcome ins g)"
  using assms
proof (induction ins arbitrary: g)
  case Nil
  then show ?case by simp
next
  case (Cons i ins)
  from Cons.prems(3) obtain g2 where body: "loop_body i g = Inr g2"
    and rest: "run_loop ins g2 = Inr g1"
    by (auto split: sum.splits)
  from Cons.prems(2) body have nr: "\<not> restart_pass i g" and nres: "no_reset ins g2"
    by simp_all
  from Cons.prems(1) body have inv2: "round_inv g2" by (rule round_inv_loop_body)
  from loop_body_score_bound [OF Cons.prems(1) body nr] Cons.IH [OF inv2 nres rest] body
  show ?case by (auto split: if_splits)
qed

text \<open>
  C1. Take the passes of one round: the first may be the pass that starts the round (it
  resets \<^verbatim>\<open>scored_this_round\<close> and increments \<^verbatim>\<open>round_num\<close>), no later pass starts a
  round, and no pass restarts the match. Whatever the inputs, at most one of these passes
  enters the block that applies the outcome, at most one takes \<^verbatim>\<open>scored_this_round\<close> from
  false to true, and at most one has a game logic that changes a score or raises
  \<^verbatim>\<open>is_out\<close>, although the branch for clock 16 to 24 is evaluated in every pass of that
  window. When no pass has such an effect, the round ends with the scores it began with.
  From a reachable state no score goes down in the round and the two scores together grow
  by at most 6, one move.
\<close>

theorem C1_outcome_at_most_once:
  assumes "one_round ins g"
  shows "count_passes applies_outcome ins g \<le> 1 \<and> count_passes sets_scored ins g \<le> 1 \<and>
         count_passes outcome_effect ins g \<le> 1 \<and>
         (\<forall>g1. run_loop ins g = Inr g1 \<and> count_passes outcome_effect ins g = 0 \<longrightarrow>
               player_score g1 = player_score g \<and> computer_score g1 = computer_score g) \<and>
         (\<forall>g1. reachable g \<and> run_loop ins g = Inr g1 \<longrightarrow>
               player_score g \<le> player_score g1 \<and> computer_score g \<le> computer_score g1 \<and>
               player_score g1 + computer_score g1 \<le> player_score g + computer_score g + 6)"
proof -
  have applies: "count_passes applies_outcome ins g \<le> 1"
  proof (cases ins)
    case Nil
    then show ?thesis by simp
  next
    case (Cons i rest)
    show ?thesis
    proof (cases "loop_body i g")
      case (Inl st)
      with Cons show ?thesis by simp
    next
      case (Inr g1)
      with assms Cons have rest: "no_reset rest g1" and nr: "\<not> restart_pass i g"
        by simp_all
      show ?thesis
      proof (cases "round_start_pass i g")
        case True
        then have "\<not> applies_outcome i g"
          by (simp add: round_start_pass_def applies_outcome_def)
        with no_reset_at_most_once [OF rest] Cons Inr show ?thesis by simp
      next
        case False
        with rest nr Inr have "no_reset (i # rest) g" by simp
        then show ?thesis unfolding Cons by (rule no_reset_at_most_once)
      qed
    qed
  qed
  have "count_passes sets_scored ins g \<le> count_passes applies_outcome ins g"
    by (rule count_passes_mono) (rule sets_scored_applies)
  with applies have flips: "count_passes sets_scored ins g \<le> 1" by simp
  have "count_passes outcome_effect ins g \<le> count_passes applies_outcome ins g"
    by (rule count_passes_mono) (rule outcome_effect_applies)
  with applies have effects: "count_passes outcome_effect ins g \<le> 1" by simp
  have kept: "player_score g1 = player_score g \<and> computer_score g1 = computer_score g"
    if run: "run_loop ins g = Inr g1" and none: "count_passes outcome_effect ins g = 0" for g1
  proof (cases ins)
    case Nil
    with run show ?thesis by simp
  next
    case (Cons i rest)
    with run obtain g2 where body: "loop_body i g = Inr g2"
      and rest_run: "run_loop rest g2 = Inr g1"
      by (auto split: sum.splits)
    from assms Cons body have nr: "\<not> restart_pass i g" and nres: "no_reset rest g2"
      by simp_all
    from none Cons body have "\<not> outcome_effect i g" "count_passes outcome_effect rest g2 = 0"
      by (auto split: if_splits)
    with loop_body_scores_kept [OF body nr] no_effect_scores_kept [OF nres _ rest_run]
    show ?thesis by simp
  qed
  have bound: "player_score g \<le> player_score g1 \<and> computer_score g \<le> computer_score g1 \<and>
               player_score g1 + computer_score g1 \<le> player_score g + computer_score g + 6"
    if reach: "reachable g" and run: "run_loop ins g = Inr g1" for g1
  proof (cases ins)
    case Nil
    with run show ?thesis by simp
  next
    case (Cons i rest)
    with run obtain g2 where body: "loop_body i g = Inr g2"
      and rest_run: "run_loop rest g2 = Inr g1"
      by (auto split: sum.splits)
    from assms Cons body have nr: "\<not> restart_pass i g" and nres: "no_reset rest g2"
      by simp_all
    from reach have inv: "round_inv g" by (rule reachable_round_inv)
    then have inv2: "round_inv g2" using body by (rule round_inv_loop_body)
    have "count_passes applies_outcome (i # rest) g \<le> 1"
      using applies Cons by simp
    with body have "int (if applies_outcome i g then 1 else 0) +
        int (count_passes applies_outcome rest g2) \<le> 1"
      by (auto split: if_splits)
    with loop_body_score_bound [OF inv body nr] run_score_bound [OF inv2 nres rest_run]
    show ?thesis by linarith
  qed
  from applies flips effects kept bound show ?thesis by blast
qed

theorem C1_witness:
  "reachable second_round \<and> round_start_pass no_hand second_round \<and>
   length (round_passes two_fingers 0) = 27 \<and>
   one_round (round_passes two_fingers 0) second_round \<and>
   run_loop (round_passes two_fingers 0) second_round = Inr third_round \<and>
   player_score second_round = 6 \<and> player_score third_round = 8 \<and>
   computer_score second_round = 0 \<and> computer_score third_round = 0 \<and>
   count_passes applies_outcome (round_passes two_fingers 0) second_round = 1 \<and>
   count_passes sets_scored (round_passes two_fingers 0) second_round = 1 \<and>
   count_passes outcome_effect (round_passes two_fingers 0) second_round = 1 \<and>
   one_round (replicate 12 no_hand) at_capture \<and>
   count_passes outcome_effect (replicate 12 no_hand) at_capture = 0 \<and>
   (\<exists>g1. run_loop (replicate 12 no_hand) at_capture = Inr g1 \<and> player_score g1 = 0 \<and>
         computer_score g1 = 0)"
proof -
  have "run_loop first_round_six initial_game = Inr second_round"
    by code_simp
  with reachable_initial have reach: "reachable second_round"
    by (rule reachable_run_loop)
  have facts: "round_start_pass no_hand second_round"
    "length (round_passes two_fingers 0) = 27"
    "player_score second_round = 6" "player_score third_round = 8"
    "computer_score second_round = 0" "computer_score third_round = 0"
    by code_simp+
  have r: "one_round (round_passes two_fingers 0) second_round"
    by code_simp
  have run: "run_loop (round_passes two_fingers 0) second_round = Inr third_round"
    by code_simp
  have least: "1 \<le> count_passes applies_outcome (round_passes two_fingers 0) second_round"
    "1 \<le> count_passes sets_scored (round_passes two_fingers 0) second_round"
    "1 \<le> count_passes outcome_effect (round_passes two_fingers 0) second_round"
    by code_simp+
  have r2: "one_round (replicate 12 no_hand) at_capture"
    by code_simp
  have none: "count_passes outcome_effect (replicate 12 no_hand) at_capture = 0"
    by code_simp
  have run2: "run_loop (replicate 12 no_hand) at_capture =
              Inr (at_capture\<lparr>clock := 0, gametext := []\<rparr>)"
    by code_simp
  have "player_score at_capture = 0" "computer_score at_capture = 0"
    by (simp_all add: at_capture_def)
  with C1_outcome_at_most_once [OF r2] run2 none
  have ex: "\<exists>g1. run_loop (replicate 12 no_hand) at_capture = Inr g1 \<and>
      player_score g1 = 0 \<and> computer_score g1 = 0" by simp
  from C1_outcome_at_most_once [OF r] reach run facts r r2 least none ex show ?thesis
    by simp
qed

section \<open>A dismissal\<close>

text \<open>The pass at clock 25 with a dismissal pending in the first innings.\<close>

lemma transition_pass:
  assumes "game_started g" "clock g = 25" "is_out g" "innings g = 1"
    and "ret inp" "waitkey inp mod 256 \<noteq> 113"
  shows "\<exists>g1. loop_body inp g = Inr g1 \<and> clock g1 = 26 \<and> \<not> game_over g1 \<and> \<not> is_out g1 \<and>
           innings g1 = 2 \<and> target g1 = Some (player_score g) \<and> \<not> is_player_batting g1 \<and>
           player_score g1 = player_score g \<and> computer_score g1 = computer_score g"
proof -
  from assms(2) have rs: "round_start g = g" by (simp add: round_start_def)
  let ?g2 = "checkpoint g"
  have fields: "game_started ?g2" "\<not> game_over ?g2" "clock ?g2 = 25" "\<not> is_out ?g2"
    "innings ?g2 = 2" "target ?g2 = Some (player_score g)" "\<not> is_player_batting ?g2"
    "player_score ?g2 = player_score g" "computer_score ?g2 = computer_score g"
    using assms(1-4) by (simp_all add: checkpoint_def)
  have "loop_body inp g = Inr (?g2\<lparr>clock := clock ?g2 + 1\<rparr>)"
    using assms(5,6)
  proof (rule pass_after_logic)
    show "game_state_logic inp (round_start g) = Inr ?g2"
      using assms(1,2) by (simp add: rs logic_checkpoint)
    show "game_started ?g2" by (rule fields)
    show "\<not> restart_taken inp ?g2" using fields by (simp add: restart_taken_def)
    show "clock ?g2 \<le> 50" using fields by simp
  qed
  with fields show ?thesis by simp
qed

text \<open>
  C2. In a pass with the match started, the clock strictly between 15 and 25, the capture
  succeeded, \<^verbatim>\<open>scored_this_round\<close> false and both moves equal, the game logic sets
  \<^verbatim>\<open>is_out\<close>, and sets \<^verbatim>\<open>game_over\<close> to true exactly when the innings is 2, in that very
  pass; neither score changes. When no restart or quit key is pressed in the pass, this is
  the state at the end of the whole pass, with the clock one further. In the first innings
  \<^verbatim>\<open>game_over\<close> then stays false in every later pass up to and including the one at clock
  25 (camera reads succeed, no quit key), and that pass makes the innings transition.
\<close>

theorem C2_dismissal:
  assumes "game_started g" "15 < clock g" "clock g < 25" "success g"
    "\<not> scored_this_round g" "player_move g = computer_move g"
  shows "\<exists>g1. game_state_logic inp g = Inr g1 \<and> is_out g1 \<and>
           game_over g1 = (innings g = 2) \<and> scored_this_round g1 \<and>
           player_score g1 = player_score g \<and> computer_score g1 = computer_score g \<and>
           innings g1 = innings g \<and> clock g1 = clock g \<and>
           (ret inp \<and> waitkey inp mod 256 \<noteq> 113 \<and> waitkey inp mod 256 \<noteq> 110 \<longrightarrow>
            loop_body inp g = Inr (g1\<lparr>clock := clock g + 1\<rparr>)) \<and>
           (innings g = 1 \<and> ins \<noteq> [] \<and> clock g + int (length ins) \<le> 26 \<and>
            (\<forall>i \<in> set ins. ret i \<and> waitkey i mod 256 \<noteq> 113) \<longrightarrow>
            (\<exists>g2. run_loop ins g = Inr g2 \<and> \<not> game_over g2 \<and>
                  clock g2 = clock g + int (length ins) \<and>
                  player_score g2 = player_score g \<and> computer_score g2 = computer_score g \<and>
                  (if clock g2 = 26
                   then innings g2 = 2 \<and> target g2 = Some (player_score g) \<and> \<not> is_out g2
                   else innings g2 = 1 \<and> is_out g2)))"
proof -
  define g1 where
    "g1 = g\<lparr>gameresult := ''You: '' @ str_move (player_move g) @ ''  |  Computer: '' @
                            str_move (computer_move g),
             gametext := ''OUT! Both showed '' @ str_move (player_move g) @ ''!'',
             is_out := True, game_over := (innings g = 2), scored_this_round := True\<rparr>"
  have logic: "game_state_logic inp' g = Inr g1" for inp'
    using assms(1-6) by (simp add: g1_def logic_resolve resolve_def apply_outcome_def Let_def)
  have g1: "game_started g1" "clock g1 = clock g" "success g1" "scored_this_round g1"
    "is_out g1" "game_over g1 = (innings g = 2)" "innings g1 = innings g"
    "player_score g1 = player_score g" "computer_score g1 = computer_score g"
    using assms(1,4) by (simp_all add: g1_def)
  have rs: "round_start g = g"
    using assms(2) by (simp add: round_start_def)
  have pass: "loop_body i g = Inr (g1\<lparr>clock := clock g + 1\<rparr>)"
    if "ret i" "waitkey i mod 256 \<noteq> 113" "waitkey i mod 256 \<noteq> 110 \<or> innings g = 1" for i
  proof -
    have "loop_body i g = Inr (g1\<lparr>clock := clock g1 + 1\<rparr>)"
      using that(1,2)
    proof (rule pass_after_logic)
      show "game_state_logic i (round_start g) = Inr g1" using logic by (simp add: rs)
      show "game_started g1" by (rule g1)
      show "\<not> restart_taken i g1" using that(3) g1 by (auto simp add: restart_taken_def)
      show "clock g1 \<le> 50" using assms(3) g1 by simp
    qed
    with g1 show ?thesis by simp
  qed
  have run: "\<exists>g2. run_loop ins g = Inr g2 \<and> \<not> game_over g2 \<and>
                  clock g2 = clock g + int (length ins) \<and>
                  player_score g2 = player_score g \<and> computer_score g2 = computer_score g \<and>
                  (if clock g2 = 26
                   then innings g2 = 2 \<and> target g2 = Some (player_score g) \<and> \<not> is_out g2
                   else innings g2 = 1 \<and> is_out g2)"
    if first: "innings g = 1" and "ins \<noteq> []"
      and len: "clock g + int (length ins) \<le> 26"
      and ok: "\<forall>i \<in> set ins. ret i \<and> waitkey i mod 256 \<noteq> 113"
  proof -
    from \<open>ins \<noteq> []\<close> obtain i rest where ins: "ins = i # rest" by (cases ins) auto
    define g1' where "g1' = g1\<lparr>clock := clock g + 1\<rparr>"
    have step: "loop_body i g = Inr g1'"
      unfolding g1'_def using ok ins first by (intro pass) simp_all
    have g1': "game_started g1'" "clock g1' = clock g + 1" "success g1'"
      "scored_this_round g1'" "is_out g1'" "\<not> game_over g1'" "innings g1' = 1"
      "player_score g1' = player_score g" "computer_score g1' = computer_score g"
      using g1 first by (simp_all add: g1'_def)
    have quiet: "\<exists>t r. run_loop xs g1' =
            Inr (g1'\<lparr>gametext := t, gameresult := r, clock := clock g1' + int (length xs)\<rparr>)"
      if "clock g1' + int (length xs) \<le> 25" "set xs \<subseteq> set rest" for xs
    proof -
      have "\<exists>t r. run_loop xs g1' =
            Inr (g1'\<lparr>gametext := t, gameresult := r, clock := clock g1' + int (length xs)\<rparr>) \<and>
            (\<not> success g1' \<and> xs \<noteq> [] \<and> clock g1' < 25 \<longrightarrow> t = hand_not_detected_text) \<and>
            (success g1' \<or> xs = [] \<or> clock g1' = 25 \<longrightarrow> t = gametext g1')"
      proof (rule quiet_run)
        show "game_started g1'" by (rule g1')
        show "15 < clock g1'" using assms(2) g1' by simp
        show "clock g1' + int (length xs) \<le> 26" using that(1) by simp
        show "scored_this_round g1' \<or> \<not> success g1'" using g1' by simp
        show "clock g1' + int (length xs) = 26 \<longrightarrow> \<not> is_out g1'" using that(1) by simp
        show "\<forall>i \<in> set xs. ret i \<and> waitkey i mod 256 \<noteq> 113 \<and> \<not> restart_taken i g1'"
          using ok ins that(2) g1' by (auto simp add: restart_taken_def)
      qed
      then show ?thesis by blast
    qed
    show ?thesis
    proof (cases "clock g + int (length ins) = 26")
      case False
      with len ins g1' have "clock g1' + int (length rest) \<le> 25" by simp
      from quiet [OF this subset_refl] obtain t r where
        "run_loop rest g1' =
         Inr (g1'\<lparr>gametext := t, gameresult := r, clock := clock g1' + int (length rest)\<rparr>)"
        by blast
      with step have "run_loop ins g =
         Inr (g1'\<lparr>gametext := t, gameresult := r, clock := clock g1' + int (length rest)\<rparr>)"
        by (simp add: ins)
      with g1' False ins show ?thesis by simp
    next
      case True
      with assms(3) ins have "rest \<noteq> []" by auto
      then obtain mid l where rest: "rest = mid @ [l]"
        by (cases rest rule: rev_cases) auto
      from True ins rest g1' have c25: "clock g1' + int (length mid) = 25" by simp
      then have "clock g1' + int (length mid) \<le> 25" by simp
      moreover from rest have "set mid \<subseteq> set rest" by auto
      ultimately obtain t r where mid: "run_loop mid g1' =
         Inr (g1'\<lparr>gametext := t, gameresult := r, clock := clock g1' + int (length mid)\<rparr>)"
        using quiet by blast
      define g2 where
        "g2 = g1'\<lparr>gametext := t, gameresult := r, clock := clock g1' + int (length mid)\<rparr>"
      have g2: "game_started g2" "clock g2 = 25" "is_out g2" "innings g2 = 1"
        "player_score g2 = player_score g" "computer_score g2 = computer_score g"
        using g1' c25 by (simp_all add: g2_def)
      have "\<exists>g3. loop_body l g2 = Inr g3 \<and> clock g3 = 26 \<and> \<not> game_over g3 \<and> \<not> is_out g3 \<and>
           innings g3 = 2 \<and> target g3 = Some (player_score g2) \<and> \<not> is_player_batting g3 \<and>
           player_score g3 = player_score g2 \<and> computer_score g3 = computer_score g2"
      proof (rule transition_pass)
        show "game_started g2" "clock g2 = 25" "is_out g2" "innings g2 = 1" by (rule g2)+
        show "ret l" "waitkey l mod 256 \<noteq> 113" using ok ins rest by simp_all
      qed
      then obtain g3 where last: "loop_body l g2 = Inr g3" and
        g3: "clock g3 = 26" "\<not> game_over g3" "\<not> is_out g3" "innings g3 = 2"
          "target g3 = Some (player_score g)" "player_score g3 = player_score g"
          "computer_score g3 = computer_score g"
        using g2 by auto
      from mid have "run_loop mid g1' = Inr g2" by (simp add: g2_def)
      with step last have "run_loop ins g = Inr g3"
        by (simp add: ins rest run_loop_append)
      with g3 True show ?thesis by simp
    qed
  qed
  have "ret inp \<and> waitkey inp mod 256 \<noteq> 113 \<and> waitkey inp mod 256 \<noteq> 110 \<longrightarrow>
        loop_body inp g = Inr (g1\<lparr>clock := clock g + 1\<rparr>)"
    using pass [of inp] by simp
  with logic [of inp] g1 run show ?thesis by simp
qed

theorem C2_witness:
  "reachable scenario_a \<and> game_started scenario_a \<and> 15 < clock scenario_a \<and> clock scenario_a < 25 \<and>
   success scenario_a \<and> \<not> scored_this_round scenario_a \<and>
   player_move scenario_a = computer_move scenario_a \<and> innings scenario_a = 1 \<and>
   ret no_hand \<and> waitkey no_hand mod 256 \<noteq> 113 \<and> waitkey no_hand mod 256 \<noteq> 110 \<and>
   (\<exists>g1. loop_body no_hand scenario_a = Inr (g1\<lparr>clock := 17\<rparr>) \<and> is_out g1 \<and>
         \<not> game_over g1 \<and> player_score g1 = 7 \<and> computer_score g1 = 0) \<and>
   (\<exists>g2. run_loop (replicate 10 no_hand) scenario_a = Inr g2 \<and> \<not> game_over g2 \<and>
         clock g2 = 26 \<and> innings g2 = 2 \<and> target g2 = Some 7 \<and> \<not> is_out g2)"
proof -
  have hyps: "game_started scenario_a" "15 < clock scenario_a" "clock scenario_a < 25"
    "success scenario_a" "\<not> scored_this_round scenario_a"
    "player_move scenario_a = computer_move scenario_a"
    by (simp_all add: scenario_a_def)
  have ok: "\<forall>i \<in> set (replicate 10 no_hand). ret i \<and> waitkey i mod 256 \<noteq> 113"
    by (simp add: no_hand_def)
  have len: "clock scenario_a + int (length (replicate 10 no_hand)) \<le> 26"
    by (simp add: scenario_a_def)
  have more: "innings scenario_a = 1" "clock scenario_a = 16" "player_score scenario_a = 7"
    "computer_score scenario_a = 0" "ret no_hand" "waitkey no_hand mod 256 = 255"
    "replicate 10 no_hand \<noteq> []" "length (replicate 10 no_hand) = 10"
    by (simp_all add: scenario_a_def no_hand_def)
  have "run_loop to_scenario_a initial_game = Inr scenario_a"
    by code_simp
  with reachable_initial have "reachable scenario_a"
    by (rule reachable_run_loop)
  with C2_dismissal [OF hyps, of no_hand "replicate 10 no_hand"] hyps ok len more
  show ?thesis
    by auto
qed

end
